theory Spec2Isabelle
  imports Main "HOL-Library.Multiset"
begin

section \<open>Python values\<close>

text \<open>
  A Python \<^verbatim>\<open>str\<close> is a sequence of Unicode code points; it is modelled as a list of
  naturals, one per code point. \<open>ustr\<close> turns an ASCII literal into such a list.
\<close>

type_synonym pystr = "nat list"

definition ustr :: "string \<Rightarrow> pystr" where
  "ustr s = map of_char s"

text \<open>
  The values \<^verbatim>\<open>json.loads\<close> produces: \<^verbatim>\<open>None\<close>, \<^verbatim>\<open>bool\<close>, \<^verbatim>\<open>int\<close>, \<^verbatim>\<open>float\<close>,
  \<^verbatim>\<open>str\<close>, \<^verbatim>\<open>list\<close> and \<^verbatim>\<open>dict\<close> with string keys (in insertion order).
  Floating point is not interpreted: a float is kept as the text of its literal.
\<close>

datatype json =
    JNull
  | JBool bool
  | JInt int
  | JFloat pystr
  | JString pystr
  | JArray "json list"
  | JObject "(pystr \<times> json) list"

datatype error = TypeError | IndexError | OSError | JSONDecodeError

text \<open>
  The dictionary built at lines 121-128 of \<^verbatim>\<open>main.py\<close>, with its six keys in that order.
  (\<^verbatim>\<open>id\<close> and \<^verbatim>\<open>text\<close> carry a prime: both names are taken in Isabelle.)
  \<open>task_dict\<close> is the Python value of a task, \<open>tasks_value\<close> that of the stored list.
\<close>

record task =
  id' :: pystr
  text' :: pystr
  completed :: bool
  timestamp :: int
  priority_score :: int
  source :: pystr

definition task_dict :: "task \<Rightarrow> json" where
  "task_dict t =
     JObject [(ustr ''id'', JString (id' t)),
              (ustr ''text'', JString (text' t)),
              (ustr ''completed'', JBool (completed t)),
              (ustr ''timestamp'', JInt (timestamp t)),
              (ustr ''priority_score'', JInt (priority_score t)),
              (ustr ''source'', JString (source t))]"

definition tasks_value :: "task list \<Rightarrow> json" where
  "tasks_value ts = JArray (map task_dict ts)"

section \<open>Library functions\<close>

subsection \<open>\<^verbatim>\<open>str(int)\<close>, \<^verbatim>\<open>str.join\<close>, \<^verbatim>\<open>str.strip\<close>, \<^verbatim>\<open>str.startswith\<close>\<close>

fun dec_digits :: "nat \<Rightarrow> pystr" where
  "dec_digits n = (if n < 10 then [48 + n] else dec_digits (n div 10) @ [48 + n mod 10])"

declare dec_digits.simps [simp del]

definition py_str_int :: "int \<Rightarrow> pystr" where
  "py_str_int i = (if i < 0 then 45 # dec_digits (nat (- i)) else dec_digits (nat i))"

fun join :: "pystr \<Rightarrow> pystr list \<Rightarrow> pystr" where
  "join sep [] = []"
| "join sep [x] = x"
| "join sep (x # y # ys) = x @ sep @ join sep (y # ys)"

text \<open>The code points for which \<^verbatim>\<open>str.isspace\<close> holds; \<^verbatim>\<open>str.strip()\<close> removes them at both ends.\<close>

definition py_isspace :: "nat \<Rightarrow> bool" where
  "py_isspace c \<longleftrightarrow>
     (9 \<le> c \<and> c \<le> 13) \<or> (28 \<le> c \<and> c \<le> 32) \<or> c = 133 \<or> c = 160 \<or> c = 5760 \<or>
     (8192 \<le> c \<and> c \<le> 8202) \<or> c = 8232 \<or> c = 8233 \<or> c = 8239 \<or> c = 8287 \<or> c = 12288"

definition py_strip :: "pystr \<Rightarrow> pystr" where
  "py_strip s = rev (dropWhile py_isspace (rev (dropWhile py_isspace s)))"

definition startswith :: "pystr \<Rightarrow> pystr \<Rightarrow> bool" where
  "startswith s p \<longleftrightarrow> take (length p) s = p"

subsection \<open>\<^verbatim>\<open>re.search(r'\[.*?\]', response, re.DOTALL)\<close>\<close>

text \<open>
  The pattern is a literal \<^verbatim>\<open>[\<close>, a lazy \<^verbatim>\<open>.*?\<close> (with DOTALL: any code point), a literal
  \<^verbatim>\<open>]\<close>. A backtracking matcher tries each start position from the left; at a start
  position the lazy star first tries to stop, and takes one more code point only when the
  next one is not \<^verbatim>\<open>]\<close>. The result is \<^verbatim>\<open>match.group(0)\<close>, or \<open>None\<close> for no match.
\<close>

fun lazy_dot_star_close :: "pystr \<Rightarrow> pystr option" where
  "lazy_dot_star_close [] = None"
| "lazy_dot_star_close (c # cs) =
     (if c = 93 then Some [c] else map_option ((#) c) (lazy_dot_star_close cs))"

definition match_here :: "pystr \<Rightarrow> pystr option" where
  "match_here s =
     (case s of [] \<Rightarrow> None
      | c # cs \<Rightarrow> if c = 91 then map_option ((#) c) (lazy_dot_star_close cs) else None)"

fun re_search :: "pystr \<Rightarrow> pystr option" where
  "re_search [] = None"
| "re_search (c # cs) =
     (case match_here (c # cs) of Some m \<Rightarrow> Some m | None \<Rightarrow> re_search cs)"

subsection \<open>\<^verbatim>\<open>list.sort(key=..., reverse=True)\<close> and \<^verbatim>\<open>list.pop(i)\<close>\<close>

text \<open>
  CPython sorts with \<^verbatim>\<open>reverse=True\<close> by reversing the list, sorting it stably in
  ascending order of the key, and reversing the result.
\<close>

definition py_sort_reverse :: "('a \<Rightarrow> int) \<Rightarrow> 'a list \<Rightarrow> 'a list" where
  "py_sort_reverse key xs = rev (sort_key key (rev xs))"

text \<open>
  \<^verbatim>\<open>list.pop(i)\<close> removes the element at index \<open>i\<close>, a negative index counting from the
  end, and raises \<^verbatim>\<open>IndexError\<close> out of range. The list after the call is returned.
\<close>

definition py_pop :: "'a list \<Rightarrow> int \<Rightarrow> error + 'a list" where
  "py_pop xs i =
     (if - int (length xs) \<le> i \<and> i < int (length xs) then
        (let j = nat (if i < 0 then i + int (length xs) else i)
         in Inr (take j xs @ drop (Suc j) xs))
      else Inl IndexError)"

subsection \<open>\<^verbatim>\<open>json.dump(obj, f, indent=2)\<close>\<close>

text \<open>
  The text \<^verbatim>\<open>json.dump\<close> writes with its defaults and \<^verbatim>\<open>indent=2\<close>: every code point
  outside the printable ASCII range is escaped (\<^verbatim>\<open>ensure_ascii\<close>), above the basic plane as
  a surrogate pair; the items of a non-empty list or dictionary stand on lines of their own,
  indented by two spaces per level, separated by a comma, a key and its value by a colon
  and a space. A float is written as the literal that is kept for it.
\<close>

definition hex_digit :: "nat \<Rightarrow> nat" where
  "hex_digit d = (if d < 10 then 48 + d else 87 + d)"

definition hex4 :: "nat \<Rightarrow> pystr" where
  "hex4 n = [hex_digit (n div 4096 mod 16), hex_digit (n div 256 mod 16),
             hex_digit (n div 16 mod 16), hex_digit (n mod 16)]"

definition u_escape :: "nat \<Rightarrow> pystr" where
  "u_escape n = [92, 117] @ hex4 n"

definition escape_char :: "nat \<Rightarrow> pystr" where
  "escape_char c =
     (if c = 34 then [92, 34]
      else if c = 92 then [92, 92]
      else if c = 10 then [92, 110]
      else if c = 13 then [92, 114]
      else if c = 9 then [92, 116]
      else if c = 12 then [92, 102]
      else if c = 8 then [92, 98]
      else if 32 \<le> c \<and> c \<le> 126 then [c]
      else if c < 65536 then u_escape c
      else u_escape (55296 + (c - 65536) div 1024 mod 1024) @
           u_escape (56320 + (c - 65536) mod 1024))"

definition encode_string :: "pystr \<Rightarrow> pystr" where
  "encode_string s = [34] @ concat (map escape_char s) @ [34]"

definition newline_indent :: "nat \<Rightarrow> pystr" where
  "newline_indent level = 10 # replicate (2 * level) 32"

fun encode :: "nat \<Rightarrow> json \<Rightarrow> pystr"
  and encode_items :: "nat \<Rightarrow> json list \<Rightarrow> pystr"
  and encode_members :: "nat \<Rightarrow> (pystr \<times> json) list \<Rightarrow> pystr" where
  "encode l JNull = ustr ''null''"
| "encode l (JBool b) = (if b then ustr ''true'' else ustr ''false'')"
| "encode l (JInt i) = py_str_int i"
| "encode l (JFloat x) = x"
| "encode l (JString s) = encode_string s"
| "encode l (JArray []) = ustr ''[]''"
| "encode l (JArray (x # xs)) =
     [91] @ newline_indent (Suc l) @ encode_items (Suc l) (x # xs) @ newline_indent l @ [93]"
| "encode l (JObject []) = ustr ''{}''"
| "encode l (JObject (kv # kvs)) =
     [123] @ newline_indent (Suc l) @ encode_members (Suc l) (kv # kvs) @ newline_indent l @ [125]"
| "encode_items l [] = []"
| "encode_items l [x] = encode l x"
| "encode_items l (x # y # ys) = encode l x @ [44] @ newline_indent l @ encode_items l (y # ys)"
| "encode_members l [] = []"
| "encode_members l [(k, v)] = encode_string k @ [58, 32] @ encode l v"
| "encode_members l ((k, v) # kv # kvs) =
     encode_string k @ [58, 32] @ encode l v @ [44] @ newline_indent l @ encode_members l (kv # kvs)"

definition json_dumps :: "json \<Rightarrow> pystr" where
  "json_dumps obj = encode 0 obj"

subsection \<open>\<^verbatim>\<open>json.loads\<close>\<close>

text \<open>
  The decoder of the \<^verbatim>\<open>json\<close> module with its defaults (strict strings, \<^verbatim>\<open>NaN\<close> and
  \<^verbatim>\<open>Infinity\<close> accepted). Every function returns the decoded value and the text that
  follows it, or \<open>None\<close> where the module raises.
\<close>

definition is_ws :: "nat \<Rightarrow> bool" where
  "is_ws c \<longleftrightarrow> c = 32 \<or> c = 9 \<or> c = 10 \<or> c = 13"

definition skip_ws :: "pystr \<Rightarrow> pystr" where
  "skip_ws s = dropWhile is_ws s"

definition is_digit :: "nat \<Rightarrow> bool" where
  "is_digit c \<longleftrightarrow> 48 \<le> c \<and> c \<le> 57"

definition hex_value :: "nat \<Rightarrow> nat option" where
  "hex_value c =
     (if 48 \<le> c \<and> c \<le> 57 then Some (c - 48)
      else if 97 \<le> c \<and> c \<le> 102 then Some (c - 87)
      else if 65 \<le> c \<and> c \<le> 70 then Some (c - 55)
      else None)"

definition decode_uXXXX :: "pystr \<Rightarrow> nat option" where
  "decode_uXXXX s =
     (case s of
        a # b # c # d # _ \<Rightarrow>
          (case (hex_value a, hex_value b, hex_value c, hex_value d) of
             (Some x, Some y, Some z, Some w) \<Rightarrow> Some (((x * 16 + y) * 16 + z) * 16 + w)
           | _ \<Rightarrow> None)
      | _ \<Rightarrow> None)"

definition backslash :: "nat \<Rightarrow> nat option" where
  "backslash esc =
     (if esc = 34 then Some 34
      else if esc = 92 then Some 92
      else if esc = 47 then Some 47
      else if esc = 98 then Some 8
      else if esc = 102 then Some 12
      else if esc = 110 then Some 10
      else if esc = 114 then Some 13
      else if esc = 116 then Some 9
      else None)"

definition append_char :: "nat \<Rightarrow> (pystr \<times> pystr) option \<Rightarrow> (pystr \<times> pystr) option" where
  "append_char ch r = map_option (\<lambda>(s, rest). (ch # s, rest)) r"

text \<open>\<^verbatim>\<open>scanstring\<close>, from the code point after the opening quote.\<close>

fun scanstring :: "pystr \<Rightarrow> (pystr \<times> pystr) option" where
  "scanstring [] = None"
| "scanstring (c # cs) =
     (if c = 34 then Some ([], cs)
      else if c = 92 then
        (case cs of
           [] \<Rightarrow> None
         | esc # cs' \<Rightarrow>
             if esc = 117 then
               (case decode_uXXXX cs' of
                  None \<Rightarrow> None
                | Some uni \<Rightarrow>
                    if 55296 \<le> uni \<and> uni \<le> 56319 \<and> take 2 (drop 4 cs') = [92, 117] then
                      (case decode_uXXXX (drop 6 cs') of
                         None \<Rightarrow> None
                       | Some uni2 \<Rightarrow>
                           if 56320 \<le> uni2 \<and> uni2 \<le> 57343
                           then append_char (65536 + (uni - 55296) * 1024 + (uni2 - 56320))
                                  (scanstring (drop 10 cs'))
                           else append_char uni (scanstring (drop 4 cs')))
                    else append_char uni (scanstring (drop 4 cs')))
             else
               (case backslash esc of
                  None \<Rightarrow> None
                | Some ch \<Rightarrow> append_char ch (scanstring cs')))
      else if c < 32 then None
      else append_char c (scanstring cs))"

text \<open>\<^verbatim>\<open>int()\<close> on a matched integer literal.\<close>

definition digits_value :: "pystr \<Rightarrow> nat" where
  "digits_value ds = foldl (\<lambda>acc d. 10 * acc + (d - 48)) 0 ds"

definition int_of_literal :: "pystr \<Rightarrow> int" where
  "int_of_literal s =
     (case s of
        [] \<Rightarrow> 0
      | c # cs \<Rightarrow> if c = 45 then - int (digits_value cs) else int (digits_value (c # cs)))"

text \<open>
  \<^verbatim>\<open>NUMBER_RE\<close>: the integer part, an optional fraction, an optional exponent, each matched
  greedily; a fraction or exponent that cannot be completed is left unmatched.
\<close>

definition match_integer :: "pystr \<Rightarrow> (pystr \<times> pystr) option" where
  "match_integer s =
     (let sign = (if s \<noteq> [] \<and> hd s = 45 then [45] else []);
          s1 = drop (length sign) s
      in case s1 of
           [] \<Rightarrow> None
         | d # r \<Rightarrow>
             if d = 48 then Some (sign @ [48], r)
             else if 49 \<le> d \<and> d \<le> 57
               then Some (sign @ d # takeWhile is_digit r, dropWhile is_digit r)
             else None)"

definition match_frac :: "pystr \<Rightarrow> pystr \<times> pystr" where
  "match_frac s =
     (case s of
        c # d # r \<Rightarrow>
          if c = 46 \<and> is_digit d
          then (c # takeWhile is_digit (d # r), dropWhile is_digit (d # r))
          else ([], s)
      | _ \<Rightarrow> ([], s))"

definition match_exp :: "pystr \<Rightarrow> pystr \<times> pystr" where
  "match_exp s =
     (case s of
        [] \<Rightarrow> ([], s)
      | c # r \<Rightarrow>
          if c = 101 \<or> c = 69 then
            (let sign = (if r \<noteq> [] \<and> (hd r = 45 \<or> hd r = 43) then [hd r] else []);
                 r1 = drop (length sign) r
             in if r1 \<noteq> [] \<and> is_digit (hd r1)
                then (c # sign @ takeWhile is_digit r1, dropWhile is_digit r1)
                else ([], s))
          else ([], s))"

definition match_number :: "pystr \<Rightarrow> (json \<times> pystr) option" where
  "match_number s =
     (case match_integer s of
        None \<Rightarrow> None
      | Some (integer, r) \<Rightarrow>
          (let (frac, r1) = match_frac r;
               (exp, r2) = match_exp r1
           in if frac \<noteq> [] \<or> exp \<noteq> []
              then Some (JFloat (integer @ frac @ exp), r2)
              else Some (JInt (int_of_literal integer), r2)))"

text \<open>
  \<^verbatim>\<open>dict(pairs)\<close>: a key keeps the position of its first occurrence and the value of its
  last.
\<close>

fun dict_set :: "(pystr \<times> json) list \<Rightarrow> pystr \<Rightarrow> json \<Rightarrow> (pystr \<times> json) list" where
  "dict_set [] k v = [(k, v)]"
| "dict_set ((k', v') # d) k v = (if k' = k then (k, v) # d else (k', v') # dict_set d k v)"

definition py_dict :: "(pystr \<times> json) list \<Rightarrow> (pystr \<times> json) list" where
  "py_dict pairs = foldl (\<lambda>d (k, v). dict_set d k v) [] pairs"

text \<open>
  The scanner: \<^verbatim>\<open>scan_once\<close>, with \<^verbatim>\<open>JSONArray\<close> and \<^verbatim>\<open>JSONObject\<close> up to their loops,
  and the two loops. The first argument bounds the number of nested calls; \<open>json_loads\<close>
  starts it at twice the length of the text plus two, and a larger bound changes no result
  (lemma \<open>json_loads_fuel\<close>).
\<close>

fun scan_once :: "nat \<Rightarrow> pystr \<Rightarrow> (json \<times> pystr) option"
  and array_loop :: "nat \<Rightarrow> pystr \<Rightarrow> (json list \<times> pystr) option"
  and object_loop :: "nat \<Rightarrow> pystr \<Rightarrow> ((pystr \<times> json) list \<times> pystr) option" where
  "scan_once 0 s = None"
| "scan_once (Suc n) s =
     (case s of
        [] \<Rightarrow> None
      | nextchar # r \<Rightarrow>
          if nextchar = 34 then
            map_option (\<lambda>(str, r'). (JString str, r')) (scanstring r)
          else if nextchar = 123 then
            (case skip_ws r of
               [] \<Rightarrow> None
             | c # r1 \<Rightarrow>
                 if c = 125 then Some (JObject [], r1)
                 else if c = 34 then
                   map_option (\<lambda>(pairs, r'). (JObject (py_dict pairs), r')) (object_loop n r1)
                 else None)
          else if nextchar = 91 then
            (case skip_ws r of
               [] \<Rightarrow> None
             | c # r1 \<Rightarrow>
                 if c = 93 then Some (JArray [], r1)
                 else map_option (\<lambda>(values, r'). (JArray values, r')) (array_loop n (c # r1)))
          else if startswith s (ustr ''null'') then Some (JNull, drop 4 s)
          else if startswith s (ustr ''true'') then Some (JBool True, drop 4 s)
          else if startswith s (ustr ''false'') then Some (JBool False, drop 5 s)
          else
            (case match_number s of
               Some res \<Rightarrow> Some res
             | None \<Rightarrow>
                 if startswith s (ustr ''NaN'') then Some (JFloat (ustr ''NaN''), drop 3 s)
                 else if startswith s (ustr ''Infinity'')
                   then Some (JFloat (ustr ''Infinity''), drop 8 s)
                 else if startswith s (ustr ''-Infinity'')
                   then Some (JFloat (ustr ''-Infinity''), drop 9 s)
                 else None))"
| "array_loop 0 s = None"
| "array_loop (Suc n) s =
     (case scan_once n s of
        None \<Rightarrow> None
      | Some (value, r) \<Rightarrow>
          (case skip_ws r of
             [] \<Rightarrow> None
           | nextchar # r1 \<Rightarrow>
               if nextchar = 93 then Some ([value], r1)
               else if nextchar \<noteq> 44 then None
               else map_option (\<lambda>(values, r'). (value # values, r')) (array_loop n (skip_ws r1))))"
| "object_loop 0 s = None"
| "object_loop (Suc n) s =
     (case scanstring s of
        None \<Rightarrow> None
      | Some (key, r) \<Rightarrow>
          (case skip_ws r of
             [] \<Rightarrow> None
           | colon # r1 \<Rightarrow>
               if colon \<noteq> 58 then None
               else
                 (case scan_once n (skip_ws r1) of
                    None \<Rightarrow> None
                  | Some (value, r2) \<Rightarrow>
                      (case skip_ws r2 of
                         [] \<Rightarrow> None
                       | nextchar # r3 \<Rightarrow>
                           if nextchar = 125 then Some ([(key, value)], r3)
                           else if nextchar \<noteq> 44 then None
                           else
                             (case skip_ws r3 of
                                [] \<Rightarrow> None
                              | quote # r4 \<Rightarrow>
                                  if quote \<noteq> 34 then None
                                  else map_option (\<lambda>(pairs, r'). ((key, value) # pairs, r'))
                                         (object_loop n r4))))))"

text \<open>
  \<^verbatim>\<open>json.loads\<close>: a leading byte-order mark is refused, white space is allowed around
  the value, and nothing else may follow it.
\<close>

definition json_loads :: "pystr \<Rightarrow> json option" where
  "json_loads s =
     (if startswith s [65279] then None
      else
        (case scan_once (2 * length s + 2) (skip_ws s) of
           None \<Rightarrow> None
         | Some (obj, r) \<Rightarrow> if skip_ws r = [] then Some obj else None))"

section \<open>The program\<close>

subsection \<open>The language-model call (\<^verbatim>\<open>ollama_generate\<close>, lines 29-38)\<close>

text \<open>
  \<^verbatim>\<open>ollama_generate\<close> runs the model as a subprocess and returns its standard output,
  stripped. The subprocess is the parameter \<open>run\<close>: the decoded standard output for a
  given prompt. \<open>answer r\<close> is a subprocess that prints \<open>r\<close> whatever it is asked.
\<close>

definition ollama_generate :: "(pystr \<Rightarrow> pystr) \<Rightarrow> pystr \<Rightarrow> pystr" where
  "ollama_generate run prompt = py_strip (run prompt)"

definition answer :: "pystr \<Rightarrow> pystr \<Rightarrow> pystr" where
  "answer r prompt = r"

subsection \<open>Storage (\<^verbatim>\<open>load_tasks\<close>, \<^verbatim>\<open>save_tasks\<close>, lines 44-56)\<close>

text \<open>
  The file \<^verbatim>\<open>tasks.json\<close>: absent, present but not readable as UTF-8 text (opening or
  reading it raises), or present with a text.
\<close>

datatype file_state = Absent | Unreadable | Content pystr

definition os_path_exists :: "file_state \<Rightarrow> bool" where
  "os_path_exists fs \<longleftrightarrow> fs \<noteq> Absent"

definition read_text :: "file_state \<Rightarrow> error + pystr" where
  "read_text fs =
     (case fs of Absent \<Rightarrow> Inl OSError | Unreadable \<Rightarrow> Inl OSError | Content c \<Rightarrow> Inr c)"

text \<open>\<^verbatim>\<open>json.load(f)\<close> on the opened file: the body of the \<^verbatim>\<open>try\<close>.\<close>

definition json_load :: "file_state \<Rightarrow> error + json" where
  "json_load fs =
     (case read_text fs of
        Inl e \<Rightarrow> Inl e
      | Inr c \<Rightarrow> (case json_loads c of None \<Rightarrow> Inl JSONDecodeError | Some obj \<Rightarrow> Inr obj))"

definition load_tasks :: "file_state \<Rightarrow> error + json" where
  "load_tasks fs =
     (if os_path_exists fs then
        (case json_load fs of
           Inl e \<Rightarrow> Inr (JArray [])
         | Inr obj \<Rightarrow> Inr obj)
      else Inr (JArray []))"

text \<open>
  \<^verbatim>\<open>save_tasks\<close> opens the file for writing and dumps the list into it. \<open>can_write\<close>
  says whether the file can be opened and written; when it cannot, \<^verbatim>\<open>OSError\<close> leaves
  the function.
\<close>

definition save_tasks :: "bool \<Rightarrow> json \<Rightarrow> error + file_state" where
  "save_tasks can_write tasks =
     (if can_write then Inr (Content (json_dumps tasks)) else Inl OSError)"

subsection \<open>Extraction (\<^verbatim>\<open>extract_tasks_from_text\<close>, lines 92-113)\<close>

definition extract_prompt :: "pystr \<Rightarrow> pystr" where
  "extract_prompt text =
     [10] @ ustr ''Extract tasks from the text below.'' @ [10] @
     [10] @ ustr ''Return ONLY a valid JSON array of strings.'' @
     [10] @ ustr ''No explanations.'' @
     [10] @ ustr ''No markdown.'' @
     [10] @ ustr ''No extra text.'' @ [10] @
     [10] @ ustr ''Text:'' @
     [10] @ text @ [10]"

definition extract_tasks_from_text :: "(pystr \<Rightarrow> pystr) \<Rightarrow> pystr \<Rightarrow> json" where
  "extract_tasks_from_text run text =
     (let prompt = extract_prompt text;
          response = ollama_generate run prompt
      in case re_search response of
           None \<Rightarrow> JArray []
         | Some m \<Rightarrow> (case json_loads m of None \<Rightarrow> JArray [] | Some obj \<Rightarrow> obj))"

subsection \<open>Ranking (\<^verbatim>\<open>rank_tasks\<close>, lines 134-191)\<close>

definition rank_line :: "nat \<Rightarrow> task \<Rightarrow> pystr" where
  "rank_line i t =
     py_str_int (int i + 1) @ ustr ''. ID: '' @ id' t @ ustr '' | Task: '' @ text' t"

definition task_list_text :: "task list \<Rightarrow> pystr" where
  "task_list_text incomplete_tasks =
     join [10] (map (\<lambda>(i, t). rank_line i t) (enumerate 0 incomplete_tasks))"

definition rank_prompt :: "task list \<Rightarrow> pystr" where
  "rank_prompt incomplete_tasks =
     [10] @ ustr ''    You are a productivity AI.'' @ [10] @
     [10] @ ustr ''    Rank the following tasks from MOST important to LEAST important.'' @ [10] @
     [10] @ ustr ''    Consider:'' @
     [10] @ ustr ''    - Urgency'' @
     [10] @ ustr ''    - Practical importance'' @
     [10] @ ustr ''    - Likely deadlines'' @
     [10] @ ustr ''    - Real-world impact'' @ [10] @
     [10] @ ustr ''    Return ONLY a JSON array of task IDs in ranked order.'' @
     [10] @ ustr ''    No explanations.'' @
     [10] @ ustr ''    No markdown.'' @
     [10] @ ustr ''    No extra text.'' @ [10] @
     [10] @ ustr ''    Tasks:'' @
     [10] @ ustr ''    '' @ task_list_text incomplete_tasks @
     [10] @ ustr ''    ''"

text \<open>
  \<^verbatim>\<open>enumerate(ranked_ids)\<close> and \<^verbatim>\<open>len(ranked_ids)\<close> on a decoded JSON value: a list gives
  its elements, a string its one-character strings, a dictionary its keys; anything else
  is not iterable.
\<close>

fun py_iter :: "json \<Rightarrow> error + json list" where
  "py_iter (JArray xs) = Inr xs"
| "py_iter (JString s) = Inr (map (\<lambda>c. JString [c]) s)"
| "py_iter (JObject kvs) = Inr (map (\<lambda>kv. JString (fst kv)) kvs)"
| "py_iter _ = Inl TypeError"

text \<open>Lists and dictionaries cannot be dictionary keys.\<close>

fun hashable :: "json \<Rightarrow> bool" where
  "hashable (JArray _) = False"
| "hashable (JObject _) = False"
| "hashable _ = True"

text \<open>
  The dictionary comprehension of lines 179-182: the pairs of \<^verbatim>\<open>enumerate\<close> are inserted
  from left to right, a later key replacing an equal earlier one; an unhashable key raises
  \<^verbatim>\<open>TypeError\<close>. Keys are compared structurally; Python also identifies \<^verbatim>\<open>1\<close>, \<^verbatim>\<open>1.0\<close> and
  \<^verbatim>\<open>True\<close>, which no lookup below can observe, since only strings are looked up.
\<close>

fun id_to_score :: "nat \<Rightarrow> (nat \<times> json) list \<Rightarrow> (json \<rightharpoonup> int) \<Rightarrow> error + (json \<rightharpoonup> int)" where
  "id_to_score L [] d = Inr d"
| "id_to_score L ((i, task_id) # rest) d =
     (if hashable task_id then id_to_score L rest (d(task_id \<mapsto> int L - int i))
      else Inl TypeError)"

text \<open>The body of the loop of lines 184-188.\<close>

definition assign_score :: "(json \<rightharpoonup> int) \<Rightarrow> task \<Rightarrow> task" where
  "assign_score d t =
     (case d (JString (id' t)) of
        Some s \<Rightarrow> t\<lparr>priority_score := s\<rparr>
      | None \<Rightarrow> t\<lparr>priority_score := 0\<rparr>)"

text \<open>
  \<^verbatim>\<open>rank_tasks\<close> mutates the list it is given; the model returns the prompts sent to the
  language model and either the list after the call or the exception that left the
  function (no task has been changed when it is raised).
\<close>

definition rank_tasks ::
  "(pystr \<Rightarrow> pystr) \<Rightarrow> task list \<Rightarrow> pystr list \<times> (error + task list)" where
  "rank_tasks run tasks =
     (let incomplete_tasks = filter (\<lambda>t. \<not> completed t) tasks in
      if incomplete_tasks = [] then ([], Inr tasks)
      else
        let prompt = rank_prompt incomplete_tasks;
            response = ollama_generate run prompt
        in ([prompt],
            (case re_search response of
               None \<Rightarrow> Inr tasks
             | Some m \<Rightarrow>
                 (case json_loads m of
                    None \<Rightarrow> Inr tasks
                  | Some ranked_ids \<Rightarrow>
                      (case py_iter ranked_ids of
                         Inl e \<Rightarrow> Inl e
                       | Inr ids \<Rightarrow>
                           (case id_to_score (length ids) (enumerate 0 ids) Map.empty of
                              Inl e \<Rightarrow> Inl e
                            | Inr d \<Rightarrow>
                                Inr (py_sort_reverse priority_score
                                       (map (assign_score d) tasks))))))))"

subsection \<open>Removal (\<^verbatim>\<open>TaskTracker.complete_selected\<close>, lines 306-311)\<close>

text \<open>
  The window holds the stored list (\<^verbatim>\<open>self.tasks\<close>) and the rows of the list widget
  (\<^verbatim>\<open>self.task_list\<close>), one line of text per row as \<^verbatim>\<open>refresh_list\<close> writes them.
  \<open>selected\<close> is what \<^verbatim>\<open>currentRow()\<close> returns: the index of the selected row, or -1.
  \<^verbatim>\<open>takeItem\<close> removes a row and does nothing out of range. The result is the exception
  that left the method, if any, and the window and the file as the call leaves them.
\<close>

record tracker =
  self_tasks :: "task list"
  self_task_list :: "pystr list"

definition display :: "task \<Rightarrow> pystr" where
  "display t = text' t @ ustr ''  (score: '' @ py_str_int (priority_score t) @ ustr '')''"

definition refresh_list :: "tracker \<Rightarrow> tracker" where
  "refresh_list w = w\<lparr>self_task_list := map display (self_tasks w)\<rparr>"

definition takeItem :: "pystr list \<Rightarrow> int \<Rightarrow> pystr list" where
  "takeItem rows i =
     (if 0 \<le> i \<and> i < int (length rows) then take (nat i) rows @ drop (Suc (nat i)) rows
      else rows)"

definition complete_selected ::
  "bool \<Rightarrow> int \<Rightarrow> tracker \<times> file_state \<Rightarrow> error option \<times> tracker \<times> file_state" where
  "complete_selected can_write selected st =
     (let (w, fs) = st in
      if selected \<ge> 0 then
        (case py_pop (self_tasks w) selected of
           Inl e \<Rightarrow> (Some e, w, fs)
         | Inr tasks' \<Rightarrow>
             (let w1 = w\<lparr>self_tasks := tasks'\<rparr> in
              case save_tasks can_write (tasks_value tasks') of
                Inl e \<Rightarrow> (Some e, w1, fs)
              | Inr fs' \<Rightarrow>
                  (None, w1\<lparr>self_task_list := takeItem (self_task_list w1) selected\<rparr>, fs')))
      else (None, w, fs))"

section \<open>Notions of the specification\<close>

text \<open>
  The bracket search in the words of the specification: the text from the first opening
  bracket up to the first closing bracket after it.
\<close>

definition first_bracket_span :: "pystr \<Rightarrow> pystr option" where
  "first_bracket_span s =
     (case dropWhile (\<lambda>c. c \<noteq> 91) s of
        [] \<Rightarrow> None
      | c # after \<Rightarrow>
          (case dropWhile (\<lambda>c. c \<noteq> 93) after of
             [] \<Rightarrow> None
           | d # _ \<Rightarrow> Some (c # takeWhile (\<lambda>c. c \<noteq> 93) after @ [d])))"

text \<open>The response the ranking pass reads for a given task list.\<close>

definition rank_response :: "(pystr \<Rightarrow> pystr) \<Rightarrow> task list \<Rightarrow> pystr" where
  "rank_response run tasks =
     ollama_generate run (rank_prompt (filter (\<lambda>t. \<not> completed t) tasks))"

text \<open>Two tasks that agree on every field except, possibly, the priority score.\<close>

definition same_but_score :: "task \<Rightarrow> task \<Rightarrow> bool" where
  "same_but_score a b \<longleftrightarrow>
     id' a = id' b \<and> text' a = text' b \<and> completed a = completed b \<and>
     timestamp a = timestamp b \<and> source a = source b"

text \<open>
  Well-formed data. A string holds code points below 0x110000 and no high surrogate
  directly followed by a low surrogate (written as two escapes, the pair would be read
  back as one code point); a JSON value holds well-formed strings, no float, and no key
  twice in a dictionary; a task holds well-formed strings.
\<close>

definition is_high_surrogate :: "nat \<Rightarrow> bool" where
  "is_high_surrogate c \<longleftrightarrow> 55296 \<le> c \<and> c \<le> 56319"

definition is_low_surrogate :: "nat \<Rightarrow> bool" where
  "is_low_surrogate c \<longleftrightarrow> 56320 \<le> c \<and> c \<le> 57343"

fun wf_str :: "pystr \<Rightarrow> bool" where
  "wf_str [] = True"
| "wf_str [c] = (c < 1114112)"
| "wf_str (c # d # s) =
     (c < 1114112 \<and> \<not> (is_high_surrogate c \<and> is_low_surrogate d) \<and> wf_str (d # s))"

fun wf_json :: "json \<Rightarrow> bool" where
  "wf_json JNull = True"
| "wf_json (JBool b) = True"
| "wf_json (JInt i) = True"
| "wf_json (JFloat x) = False"
| "wf_json (JString s) = wf_str s"
| "wf_json (JArray xs) = list_all wf_json xs"
| "wf_json (JObject kvs) =
     (distinct (map fst kvs) \<and> list_all (\<lambda>kv. wf_str (fst kv) \<and> wf_json (snd kv)) kvs)"

definition wf_task :: "task \<Rightarrow> bool" where
  "wf_task t \<longleftrightarrow> wf_str (id' t) \<and> wf_str (text' t) \<and> wf_str (source t)"

text \<open>What follows a value in the output of the encoder: nothing, a comma or a newline.\<close>

definition delim :: "pystr \<Rightarrow> bool" where
  "delim rest \<longleftrightarrow> (case rest of [] \<Rightarrow> True | c # _ \<Rightarrow> c = 44 \<or> c = 10)"

text \<open>The code points an encoded value can begin with.\<close>

definition value_start :: "nat \<Rightarrow> bool" where
  "value_start c \<longleftrightarrow>
     c = 110 \<or> c = 116 \<or> c = 102 \<or> c = 45 \<or> c = 34 \<or> c = 91 \<or> c = 123 \<or> is_digit c"

text \<open>Two stored tasks, and a completed one, for the examples.\<close>

definition task_A :: task where
  "task_A = \<lparr>id' = ustr ''A'', text' = ustr ''pay rent'', completed = False,
              timestamp = 1700000000, priority_score = 0, source = ustr ''manual''\<rparr>"

definition task_B :: task where
  "task_B = \<lparr>id' = ustr ''B'', text' = ustr ''call mom'', completed = False,
              timestamp = 1700000001, priority_score = 0, source = ustr ''ai''\<rparr>"

definition task_done :: task where
  "task_done = \<lparr>id' = ustr ''D'', text' = ustr ''buy milk'', completed = True,
                 timestamp = 1700000002, priority_score = 3, source = ustr ''media''\<rparr>"

section \<open>Properties of the library functions\<close>

subsection \<open>The regular-expression search\<close>

lemma lazy_dot_star_close_no_close: "93 \<notin> set s \<Longrightarrow> lazy_dot_star_close s = None"
  by (induction s) auto

lemma lazy_dot_star_close_found:
  "93 \<in> set s \<Longrightarrow> lazy_dot_star_close s = Some (takeWhile (\<lambda>c. c \<noteq> 93) s @ [93])"
  by (induction s) auto

lemma dropWhile_no_close: "93 \<notin> set s \<Longrightarrow> dropWhile (\<lambda>c. c \<noteq> (93::nat)) s = []"
  by (induction s) auto

lemma dropWhile_found_close:
  "93 \<in> set s \<Longrightarrow> \<exists>r. dropWhile (\<lambda>c. c \<noteq> (93::nat)) s = 93 # r"
  by (induction s) auto

lemma re_search_no_close: "93 \<notin> set s \<Longrightarrow> re_search s = None"
  by (induction s) (simp_all add: match_here_def lazy_dot_star_close_no_close)

lemma re_search_eq_first_bracket_span: "re_search s = first_bracket_span s"
proof (induction s)
  case Nil
  then show ?case by (simp add: first_bracket_span_def)
next
  case (Cons c cs)
  show ?case
  proof (cases "c = 91")
    case True
    show ?thesis
    proof (cases "93 \<in> set cs")
      case False
      then have none: "re_search cs = None" "lazy_dot_star_close cs = None"
        and dw: "dropWhile (\<lambda>c. c \<noteq> (93::nat)) cs = []"
        by (auto simp: re_search_no_close lazy_dot_star_close_no_close)
      show ?thesis
        by (simp add: True none dw match_here_def first_bracket_span_def)
    next
      case in_cs: True
      then obtain r where "dropWhile (\<lambda>c. c \<noteq> (93::nat)) cs = 93 # r"
        using dropWhile_found_close by blast
      then show ?thesis
        by (simp add: True in_cs match_here_def first_bracket_span_def lazy_dot_star_close_found)
    qed
  next
    case False
    with Cons.IH show ?thesis
      by (simp add: match_here_def first_bracket_span_def)
  qed
qed

lemma re_search_no_open: "91 \<notin> set s \<Longrightarrow> re_search s = None"
  by (induction s) (auto simp: match_here_def)

subsection \<open>Strings: escaping and scanning\<close>

lemma hex_value_hex_digit: "d < 16 \<Longrightarrow> hex_value (hex_digit d) = Some d"
  by (simp add: hex_value_def hex_digit_def)

lemma hex4_recompose:
  assumes n: "n < 65536"
  shows "((n div 4096 mod 16 * 16 + n div 256 mod 16) * 16 + n div 16 mod 16) * 16 + n mod 16
         = (n::nat)"
proof -
  have a: "n div 256 = n div 16 div 16" by (simp add: div_mult2_eq)
  have b: "n div 4096 = n div 16 div 16 div 16" by (simp add: div_mult2_eq)
  have c: "n div 16 div 16 div 16 < 16"
    using n by (simp add: b [symmetric] less_mult_imp_div_less)
  have "((n div 16 div 16 div 16 * 16 + n div 16 div 16 mod 16) * 16 + n div 16 mod 16) * 16
        + n mod 16 = n"
    by (simp add: div_mult_mod_eq)
  with c show ?thesis by (simp add: a b)
qed

lemma decode_hex4:
  assumes n: "n < 65536"
  shows "decode_uXXXX (hex4 n @ t) = Some n"
proof -
  have d: "hex_value (hex_digit (n div 4096 mod 16)) = Some (n div 4096 mod 16)"
    "hex_value (hex_digit (n div 256 mod 16)) = Some (n div 256 mod 16)"
    "hex_value (hex_digit (n div 16 mod 16)) = Some (n div 16 mod 16)"
    "hex_value (hex_digit (n mod 16)) = Some (n mod 16)"
    by (simp_all add: hex_value_hex_digit)
  show ?thesis
    unfolding decode_uXXXX_def hex4_def
    by (simp only: d append_Cons append_Nil list.case prod.case option.case
        hex4_recompose [OF n])
qed

lemma length_hex4: "length (hex4 n) = 4"
  by (simp add: hex4_def)

lemma scanstring_u_escape:
  assumes "n < 65536" "\<not> (55296 \<le> n \<and> n \<le> 56319)"
  shows "scanstring (u_escape n @ t) = append_char n (scanstring t)"
proof -
  have "decode_uXXXX (hex4 n @ t) = Some n" using assms(1) by (rule decode_hex4)
  with assms(2) show ?thesis
    by (auto simp: u_escape_def length_hex4)
qed

lemma scanstring_surrogate_pair:
  assumes "55296 \<le> h" "h \<le> 56319" "56320 \<le> lo" "lo \<le> 57343"
  shows "scanstring (u_escape h @ u_escape lo @ t)
         = append_char (65536 + (h - 55296) * 1024 + (lo - 56320)) (scanstring t)"
proof -
  have h: "h < 65536" and lo: "lo < 65536" using assms by simp_all
  have d1: "decode_uXXXX (hex4 h @ 92 # 117 # hex4 lo @ t) = Some h"
    using h by (rule decode_hex4)
  have d2: "decode_uXXXX (hex4 lo @ t) = Some lo"
    using lo by (rule decode_hex4)
  show ?thesis
    using assms by (simp add: u_escape_def d1 d2 length_hex4)
qed

lemma surrogates_recompose:
  assumes "m < 1048576"
  shows "(m div 1024 mod 1024) * 1024 + m mod 1024 = (m::nat)"
proof -
  have "m div 1024 < 1024" using assms by (simp add: less_mult_imp_div_less)
  then show ?thesis by (simp add: div_mult_mod_eq)
qed

lemma scanstring_lone_high:
  assumes "is_high_surrogate c"
    and "take 2 t = [92, 117] \<Longrightarrow> \<exists>u. decode_uXXXX (drop 2 t) = Some u \<and> \<not> is_low_surrogate u"
  shows "scanstring (u_escape c @ t) = append_char c (scanstring t)"
proof -
  from assms(1) have "c < 65536" by (simp add: is_high_surrogate_def)
  then have d: "decode_uXXXX (hex4 c @ t) = Some c" by (rule decode_hex4)
  show ?thesis
  proof (cases "take 2 t = [92, 117]")
    case True
    with assms(2) obtain u where "decode_uXXXX (drop 2 t) = Some u" "\<not> is_low_surrogate u"
      by blast
    with True d show ?thesis
      by (auto simp: u_escape_def length_hex4 is_low_surrogate_def)
  next
    case False
    with d show ?thesis by (simp add: u_escape_def length_hex4)
  qed
qed

lemma escape_char_pair:
  assumes "65536 \<le> c" "c < 1114112"
  shows "\<exists>h lo. escape_char c = u_escape h @ u_escape lo \<and> is_high_surrogate h \<and>
           is_low_surrogate lo \<and> 65536 + (h - 55296) * 1024 + (lo - 56320) = c"
proof -
  define m where "m = c - 65536"
  have m: "m < 1048576" "c = 65536 + m" using assms by (simp_all add: m_def)
  have "m div 1024 < 1024" using m(1) by (simp add: less_mult_imp_div_less)
  then have "is_high_surrogate (55296 + m div 1024 mod 1024)"
    by (simp add: is_high_surrogate_def)
  moreover have "is_low_surrogate (56320 + m mod 1024)"
    by (simp add: is_low_surrogate_def)
  moreover have "65536 + (55296 + m div 1024 mod 1024 - 55296) * 1024
      + (56320 + m mod 1024 - 56320) = c"
    using surrogates_recompose [OF m(1)] m(2) by simp
  moreover have "escape_char c
      = u_escape (55296 + m div 1024 mod 1024) @ u_escape (56320 + m mod 1024)"
    using assms(1) by (simp add: escape_char_def m_def)
  ultimately show ?thesis by blast
qed

lemma scanstring_escape_char:
  assumes "c < 1114112"
    and "is_high_surrogate c \<Longrightarrow> take 2 t = [92, 117] \<Longrightarrow>
         \<exists>u. decode_uXXXX (drop 2 t) = Some u \<and> \<not> is_low_surrogate u"
  shows "scanstring (escape_char c @ t) = append_char c (scanstring t)"
proof (cases "c < 65536")
  case True
  show ?thesis
  proof (cases "c = 34 \<or> c = 92 \<or> c = 10 \<or> c = 13 \<or> c = 9 \<or> c = 12 \<or> c = 8")
    case True
    then show ?thesis
      by (auto simp: escape_char_def backslash_def)
  next
    case special: False
    show ?thesis
    proof (cases "32 \<le> c \<and> c \<le> 126")
      case True
      with special show ?thesis by (simp add: escape_char_def)
    next
      case False
      have "scanstring (u_escape c @ t) = append_char c (scanstring t)"
      proof (cases "is_high_surrogate c")
        case True
        with assms(2) show ?thesis by (intro scanstring_lone_high)
      next
        case False
        then have "\<not> (55296 \<le> c \<and> c \<le> 56319)" by (simp add: is_high_surrogate_def)
        with \<open>c < 65536\<close> show ?thesis by (rule scanstring_u_escape)
      qed
      with special False \<open>c < 65536\<close> show ?thesis by (simp add: escape_char_def)
    qed
  qed
next
  case False
  with assms(1) obtain h lo where esc: "escape_char c = u_escape h @ u_escape lo"
    and h: "is_high_surrogate h" and lo: "is_low_surrogate lo"
    and c: "65536 + (h - 55296) * 1024 + (lo - 56320) = c"
    using escape_char_pair [of c] by auto
  from h lo have "scanstring (u_escape h @ u_escape lo @ t)
      = append_char (65536 + (h - 55296) * 1024 + (lo - 56320)) (scanstring t)"
    by (intro scanstring_surrogate_pair) (simp_all add: is_high_surrogate_def is_low_surrogate_def)
  with esc c show ?thesis by simp
qed

text \<open>
  What the scanner sees after a lone high surrogate: when the text that follows begins
  with \<^verbatim>\<open>\u\<close>, it is the escape of the next code point, and decodes to a low surrogate
  only if that code point is one.
\<close>

lemma escape_char_short:
  assumes "d = 34 \<or> d = 92 \<or> d = 10 \<or> d = 13 \<or> d = 9 \<or> d = 12 \<or> d = 8"
  shows "\<exists>e. escape_char d = [92, e] \<and> e \<noteq> 117"
  using assms by (auto simp: escape_char_def)

lemma escape_char_plain:
  assumes "\<not> (d = 34 \<or> d = 92 \<or> d = 10 \<or> d = 13 \<or> d = 9 \<or> d = 12 \<or> d = 8)"
    and "32 \<le> d \<and> d \<le> 126"
  shows "escape_char d = [d]"
  using assms by (simp add: escape_char_def)

lemma escape_char_u:
  assumes "\<not> (d = 34 \<or> d = 92 \<or> d = 10 \<or> d = 13 \<or> d = 9 \<or> d = 12 \<or> d = 8)"
    and "\<not> (32 \<le> d \<and> d \<le> 126)" and "d < 65536"
  shows "escape_char d = u_escape d"
  using assms by (auto simp: escape_char_def)

lemma escape_char_lookahead:
  assumes "d < 1114112" "take 2 (escape_char d @ t) = [92, 117]"
  shows "\<exists>u. decode_uXXXX (drop 2 (escape_char d @ t)) = Some u \<and>
             (is_low_surrogate u \<longrightarrow> is_low_surrogate d)"
proof (cases "d < 65536")
  case True
  show ?thesis
  proof (cases "d = 34 \<or> d = 92 \<or> d = 10 \<or> d = 13 \<or> d = 9 \<or> d = 12 \<or> d = 8")
    case True
    then obtain e where "escape_char d = [92, e]" "e \<noteq> 117"
      using escape_char_short by blast
    with assms(2) show ?thesis by simp
  next
    case special: False
    show ?thesis
    proof (cases "32 \<le> d \<and> d \<le> 126")
      case True
      with special have "escape_char d = [d]" by (rule escape_char_plain)
      with assms(2) special show ?thesis by simp
    next
      case False
      with special True have "escape_char d = u_escape d" by (intro escape_char_u)
      moreover have "decode_uXXXX (hex4 d @ t) = Some d" using True by (rule decode_hex4)
      ultimately show ?thesis by (simp add: u_escape_def)
    qed
  qed
next
  case False
  with assms(1) obtain h lo where esc: "escape_char d = u_escape h @ u_escape lo"
    and h: "is_high_surrogate h"
    using escape_char_pair [of d] by auto
  from h have "h < 65536" by (simp add: is_high_surrogate_def)
  then have "decode_uXXXX (hex4 h @ u_escape lo @ t) = Some h" by (rule decode_hex4)
  moreover from h have "\<not> is_low_surrogate h"
    by (simp add: is_high_surrogate_def is_low_surrogate_def)
  ultimately show ?thesis using esc by (simp add: u_escape_def)
qed

lemma wf_str_Cons: "wf_str (d # s) \<Longrightarrow> d < 1114112"
  by (cases s) simp_all

lemma scanstring_escaped:
  "wf_str s \<Longrightarrow> scanstring (concat (map escape_char s) @ 34 # rest) = Some (s, rest)"
proof (induction s rule: wf_str.induct)
  case 1
  then show ?case by simp
next
  case (2 c)
  then have "scanstring (escape_char c @ 34 # rest) = append_char c (scanstring (34 # rest))"
    by (intro scanstring_escape_char) simp_all
  then show ?case by (simp add: append_char_def)
next
  case (3 c d s)
  let ?t = "escape_char d @ concat (map escape_char s) @ 34 # rest"
  from "3.prems" have c: "c < 1114112" and pair: "\<not> (is_high_surrogate c \<and> is_low_surrogate d)"
    and wf: "wf_str (d # s)" by simp_all
  from wf have d: "d < 1114112" by (rule wf_str_Cons)
  have "scanstring (escape_char c @ ?t) = append_char c (scanstring ?t)"
  proof (rule scanstring_escape_char [OF c])
    assume "is_high_surrogate c" "take 2 ?t = [92, 117]"
    with pair escape_char_lookahead [OF d, of "concat (map escape_char s) @ 34 # rest"]
    show "\<exists>u. decode_uXXXX (drop 2 ?t) = Some u \<and> \<not> is_low_surrogate u"
      by blast
  qed
  moreover from wf have "scanstring ?t = Some (d # s, rest)"
    using "3.IH" by simp
  ultimately show ?case by (simp add: append_char_def)
qed

subsection \<open>Integers: printing and matching\<close>

lemma dec_digits_not_Nil: "dec_digits n \<noteq> []"
  by (subst dec_digits.simps) simp

lemma dec_digits_all_digits: "list_all is_digit (dec_digits n)"
proof (induction n rule: dec_digits.induct)
  case (1 n)
  show ?case
  proof (cases "n < 10")
    case True
    then show ?thesis by (subst dec_digits.simps) (simp add: is_digit_def)
  next
    case False
    have "n mod 10 < 10" by simp
    then have "is_digit (48 + n mod 10)" by (simp add: is_digit_def)
    with False 1 show ?thesis by (subst dec_digits.simps) simp
  qed
qed

lemma dec_digits_hd: "0 < n \<Longrightarrow> 49 \<le> hd (dec_digits n) \<and> hd (dec_digits n) \<le> 57"
proof (induction n rule: dec_digits.induct)
  case (1 n)
  show ?case
  proof (cases "n < 10")
    case True
    with 1(2) show ?thesis by (subst (1 2) dec_digits.simps) simp
  next
    case False
    then have "0 < n div 10" by simp
    with False 1 have "49 \<le> hd (dec_digits (n div 10)) \<and> hd (dec_digits (n div 10)) \<le> 57"
      by simp
    with False show ?thesis
      by (subst (1 2) dec_digits.simps) (simp add: dec_digits_not_Nil)
  qed
qed

lemma digits_value_snoc: "digits_value (ds @ [d]) = 10 * digits_value ds + (d - 48)"
  by (simp add: digits_value_def)

lemma digits_value_dec_digits: "digits_value (dec_digits n) = n"
proof (induction n rule: dec_digits.induct)
  case (1 n)
  show ?case
  proof (cases "n < 10")
    case True
    then show ?thesis by (subst dec_digits.simps) (simp add: digits_value_def)
  next
    case False
    with 1 have "digits_value (dec_digits (n div 10)) = n div 10" by simp
    with False show ?thesis
      by (subst dec_digits.simps) (simp add: digits_value_snoc)
  qed
qed

lemma delim_not_digit: "delim rest \<Longrightarrow> rest = [] \<or> \<not> is_digit (hd rest)"
  by (auto simp: delim_def is_digit_def split: list.splits)

lemma takeWhile_digits:
  "list_all is_digit ds \<Longrightarrow> delim rest \<Longrightarrow> takeWhile is_digit (ds @ rest) = ds"
  by (induction ds) (auto dest: delim_not_digit simp: takeWhile_eq_Nil_iff neq_Nil_conv)

lemma dropWhile_digits:
  "list_all is_digit ds \<Longrightarrow> delim rest \<Longrightarrow> dropWhile is_digit (ds @ rest) = rest"
  by (induction ds) (auto dest: delim_not_digit simp: dropWhile_eq_self_iff neq_Nil_conv)

lemma match_integer_dec_digits:
  assumes "delim rest"
  shows "match_integer (dec_digits n @ rest) = Some (dec_digits n, rest)"
proof (cases "n = 0")
  case True
  then have "dec_digits n = [48]" by (subst dec_digits.simps) simp
  then show ?thesis by (simp add: match_integer_def)
next
  case False
  obtain d ds where dds: "dec_digits n = d # ds"
    using dec_digits_not_Nil by (cases "dec_digits n") auto
  from False have "49 \<le> hd (dec_digits n) \<and> hd (dec_digits n) \<le> 57"
    by (simp add: dec_digits_hd)
  with dds have d: "49 \<le> d" "d \<le> 57" by simp_all
  from dec_digits_all_digits [of n] dds have "list_all is_digit ds" by simp
  with assms have "takeWhile is_digit (ds @ rest) = ds" "dropWhile is_digit (ds @ rest) = rest"
    by (simp_all add: takeWhile_digits dropWhile_digits)
  with d dds show ?thesis by (simp add: match_integer_def)
qed

lemma match_integer_negative:
  assumes "delim rest" "0 < n"
  shows "match_integer (45 # dec_digits n @ rest) = Some (45 # dec_digits n, rest)"
proof -
  obtain d ds where dds: "dec_digits n = d # ds"
    using dec_digits_not_Nil by (cases "dec_digits n") auto
  from assms(2) have "49 \<le> hd (dec_digits n) \<and> hd (dec_digits n) \<le> 57"
    by (simp add: dec_digits_hd)
  with dds have d: "49 \<le> d" "d \<le> 57" by simp_all
  from dec_digits_all_digits [of n] dds have "list_all is_digit ds" by simp
  with assms have "takeWhile is_digit (ds @ rest) = ds" "dropWhile is_digit (ds @ rest) = rest"
    by (simp_all add: takeWhile_digits dropWhile_digits)
  with d dds show ?thesis by (simp add: match_integer_def)
qed

lemma match_frac_delim: "delim rest \<Longrightarrow> match_frac rest = ([], rest)"
  by (auto simp: match_frac_def delim_def split: list.splits)

lemma match_exp_delim: "delim rest \<Longrightarrow> match_exp rest = ([], rest)"
  by (auto simp: match_exp_def delim_def split: list.splits)

lemma match_number_py_str_int:
  assumes "delim rest"
  shows "match_number (py_str_int i @ rest) = Some (JInt i, rest)"
proof (cases "i < 0")
  case True
  then have pos: "0 < nat (- i)" by simp
  have lit: "int_of_literal (45 # dec_digits (nat (- i))) = i"
    using True by (simp add: int_of_literal_def digits_value_dec_digits)
  from assms pos
  have "match_integer (45 # dec_digits (nat (- i)) @ rest) = Some (45 # dec_digits (nat (- i)), rest)"
    by (rule match_integer_negative)
  with True assms lit show ?thesis
    by (simp add: match_number_def py_str_int_def match_frac_delim match_exp_delim)
next
  case False
  obtain d ds where dds: "dec_digits (nat i) = d # ds"
    using dec_digits_not_Nil by (cases "dec_digits (nat i)") auto
  from dec_digits_all_digits [of "nat i"] dds have "is_digit d" by simp
  then have "d \<noteq> 45" by (auto simp: is_digit_def)
  with dds have lit: "int_of_literal (dec_digits (nat i)) = i"
    using False digits_value_dec_digits [of "nat i"] by (simp add: int_of_literal_def)
  from assms
  have "match_integer (dec_digits (nat i) @ rest) = Some (dec_digits (nat i), rest)"
    by (rule match_integer_dec_digits)
  with False assms lit show ?thesis
    by (simp add: match_number_def py_str_int_def match_frac_delim match_exp_delim)
qed

subsection \<open>dict(pairs)\<close>

lemma dict_set_fresh: "k \<notin> fst ` set d \<Longrightarrow> dict_set d k v = d @ [(k, v)]"
  by (induction d) auto

lemma foldl_dict_set_distinct:
  "distinct (map fst (d @ pairs)) \<Longrightarrow>
   foldl (\<lambda>d (k, v). dict_set d k v) d pairs = d @ pairs"
proof (induction pairs arbitrary: d)
  case Nil
  then show ?case by simp
next
  case (Cons p pairs)
  obtain k v where p: "p = (k, v)" by (cases p)
  from Cons.prems p have fresh: "k \<notin> fst ` set d" by auto
  from Cons.prems p have "distinct (map fst ((d @ [(k, v)]) @ pairs))" by simp
  then have "foldl (\<lambda>d (k, v). dict_set d k v) (d @ [(k, v)]) pairs = (d @ [(k, v)]) @ pairs"
    by (rule Cons.IH)
  with fresh p show ?case by (simp add: dict_set_fresh)
qed

lemma py_dict_distinct: "distinct (map fst pairs) \<Longrightarrow> py_dict pairs = pairs"
  using foldl_dict_set_distinct [of "[]" pairs] by (simp add: py_dict_def)

subsection \<open>Whitespace and first characters\<close>

lemma value_start_not_ws: "value_start c \<Longrightarrow> \<not> is_ws c"
  by (auto simp: value_start_def is_ws_def is_digit_def)

lemma skip_ws_newline_indent: "skip_ws (newline_indent l @ t) = skip_ws t"
proof -
  have "dropWhile is_ws (replicate k 32 @ t) = dropWhile is_ws t" for k
    by (induction k) (simp_all add: is_ws_def)
  then show ?thesis by (simp add: skip_ws_def newline_indent_def is_ws_def)
qed

lemma skip_ws_Cons: "\<not> is_ws c \<Longrightarrow> skip_ws (c # cs) = c # cs"
  by (simp add: skip_ws_def)

lemma skip_ws_space: "skip_ws (32 # t) = skip_ws t"
  by (simp add: skip_ws_def is_ws_def)

lemma delim_newline_indent: "delim (newline_indent l @ t)"
  by (simp add: delim_def newline_indent_def)

lemma delim_comma: "delim (44 # t)"
  by (simp add: delim_def)

lemma py_str_int_start: "\<exists>c cs. py_str_int i = c # cs \<and> value_start c"
proof (cases "i < 0")
  case True
  then show ?thesis by (simp add: py_str_int_def value_start_def)
next
  case False
  obtain d ds where dds: "dec_digits (nat i) = d # ds"
    using dec_digits_not_Nil by (cases "dec_digits (nat i)") auto
  from dec_digits_all_digits [of "nat i"] dds have "is_digit d" by simp
  with False dds show ?thesis by (simp add: py_str_int_def value_start_def)
qed

lemma encode_string_start: "encode_string s = 34 # concat (map escape_char s) @ [34]"
  by (simp add: encode_string_def)

lemma encode_start: "wf_json v \<Longrightarrow> \<exists>c cs. encode l v = c # cs \<and> value_start c"
proof (cases v)
  case (JInt i)
  then show ?thesis using py_str_int_start [of i] by simp
next
  case (JArray xs)
  then show ?thesis by (cases xs) (simp_all add: value_start_def ustr_def)
next
  case (JObject kvs)
  then show ?thesis by (cases kvs) (simp_all add: value_start_def ustr_def)
qed (simp_all add: value_start_def ustr_def encode_string_start)

lemma skip_ws_encode: "wf_json v \<Longrightarrow> skip_ws (encode l v @ t) = encode l v @ t"
  using encode_start [of v l] by (auto simp: skip_ws_Cons value_start_not_ws)

lemma encode_items_start:
  "list_all wf_json (x # xs) \<Longrightarrow> \<exists>c cs. encode_items l (x # xs) = c # cs \<and> value_start c"
  using encode_start [of x l] by (cases xs) auto

lemma encode_members_start:
  "\<exists>cs. encode_members l (kv # kvs) = 34 # cs \<and>
        tl (encode_members l (kv # kvs)) = cs"
  by (cases kv; cases kvs) (simp_all add: encode_string_start)

subsection \<open>One step of the scanner on each kind of text\<close>

lemma scan_once_string:
  "scan_once (Suc n) (34 # r) = map_option (\<lambda>(str, r'). (JString str, r')) (scanstring r)"
  by simp

lemma scan_once_empty_array: "scan_once (Suc n) (91 # 93 # r) = Some (JArray [], r)"
  by (simp add: skip_ws_def is_ws_def)

lemma scan_once_empty_object: "scan_once (Suc n) (123 # 125 # r) = Some (JObject [], r)"
  by (simp add: skip_ws_def is_ws_def)

lemma scan_once_array:
  "skip_ws r = c # r1 \<Longrightarrow> c \<noteq> 93 \<Longrightarrow>
   scan_once (Suc n) (91 # r) = map_option (\<lambda>(values, r'). (JArray values, r')) (array_loop n (c # r1))"
  by simp

lemma scan_once_object:
  "skip_ws r = 34 # r1 \<Longrightarrow>
   scan_once (Suc n) (123 # r) = map_option (\<lambda>(pairs, r'). (JObject (py_dict pairs), r')) (object_loop n r1)"
  by simp

lemma scan_once_null: "scan_once (Suc n) (ustr ''null'' @ r) = Some (JNull, r)"
  by (simp add: ustr_def startswith_def)

lemma scan_once_true: "scan_once (Suc n) (ustr ''true'' @ r) = Some (JBool True, r)"
  by (simp add: ustr_def startswith_def)

lemma scan_once_false: "scan_once (Suc n) (ustr ''false'' @ r) = Some (JBool False, r)"
  by (simp add: ustr_def startswith_def)

lemma scan_once_number:
  assumes "c = 45 \<or> is_digit c" "match_number (c # cs) = Some res"
  shows "scan_once (Suc n) (c # cs) = Some res"
  using assms by (auto simp: ustr_def startswith_def is_digit_def)

lemma scan_once_int:
  assumes "delim rest"
  shows "scan_once (Suc n) (py_str_int i @ rest) = Some (JInt i, rest)"
proof -
  obtain c cs where ccs: "py_str_int i = c # cs" and c: "c = 45 \<or> is_digit c"
  proof (cases "i < 0")
    case True
    then show ?thesis using that by (simp add: py_str_int_def)
  next
    case False
    obtain d ds where dds: "dec_digits (nat i) = d # ds"
      using dec_digits_not_Nil by (cases "dec_digits (nat i)") auto
    from dec_digits_all_digits [of "nat i"] dds have "is_digit d" by simp
    with False dds show ?thesis using that by (simp add: py_str_int_def)
  qed
  from assms have "match_number (py_str_int i @ rest) = Some (JInt i, rest)"
    by (rule match_number_py_str_int)
  with ccs have "match_number (c # cs @ rest) = Some (JInt i, rest)" by simp
  with c have "scan_once (Suc n) (c # cs @ rest) = Some (JInt i, rest)"
    by (rule scan_once_number)
  with ccs show ?thesis by simp
qed

lemma scan_once_encode_string:
  "wf_str s \<Longrightarrow> scan_once (Suc n) (encode_string s @ rest) = Some (JString s, rest)"
  by (simp only: encode_string_start append_Cons append_assoc append_Nil scan_once_string
      scanstring_escaped) simp

declare scan_once.simps [simp del] array_loop.simps [simp del] object_loop.simps [simp del]

lemma array_loop_last:
  "scan_once n s = Some (value, r) \<Longrightarrow> skip_ws r = 93 # r1 \<Longrightarrow>
   array_loop (Suc n) s = Some ([value], r1)"
  by (simp add: array_loop.simps)

lemma array_loop_more:
  "scan_once n s = Some (value, r) \<Longrightarrow> skip_ws r = 44 # r1 \<Longrightarrow>
   array_loop (Suc n) s
   = map_option (\<lambda>(values, r'). (value # values, r')) (array_loop n (skip_ws r1))"
  by (simp add: array_loop.simps)

lemma object_loop_last:
  "scanstring s = Some (key, r) \<Longrightarrow> skip_ws r = 58 # r1 \<Longrightarrow>
   scan_once n (skip_ws r1) = Some (value, r2) \<Longrightarrow> skip_ws r2 = 125 # r3 \<Longrightarrow>
   object_loop (Suc n) s = Some ([(key, value)], r3)"
  by (simp add: object_loop.simps)

lemma object_loop_more:
  "scanstring s = Some (key, r) \<Longrightarrow> skip_ws r = 58 # r1 \<Longrightarrow>
   scan_once n (skip_ws r1) = Some (value, r2) \<Longrightarrow> skip_ws r2 = 44 # r3 \<Longrightarrow>
   skip_ws r3 = 34 # r4 \<Longrightarrow>
   object_loop (Suc n) s
   = map_option (\<lambda>(pairs, r'). ((key, value) # pairs, r')) (object_loop n r4)"
  by (simp add: object_loop.simps)

lemma value_start_not_close: "value_start c \<Longrightarrow> c \<noteq> 93 \<and> c \<noteq> 125"
  by (auto simp: value_start_def is_digit_def)

lemma loads_encode_aux:
  shows "wf_json v \<Longrightarrow> size v < n \<Longrightarrow> delim rest \<Longrightarrow>
         scan_once n (encode l v @ rest) = Some (v, rest)"
    and "xs \<noteq> [] \<Longrightarrow> list_all wf_json xs \<Longrightarrow> size_list size xs < n \<Longrightarrow>
         array_loop n (encode_items l xs @ newline_indent l' @ 93 # rest) = Some (xs, rest)"
    and "kvs \<noteq> [] \<Longrightarrow> list_all (\<lambda>kv. wf_str (fst kv) \<and> wf_json (snd kv)) kvs \<Longrightarrow>
         size_list (size_prod (\<lambda>x. 0) size) kvs < n \<Longrightarrow>
         object_loop n (tl (encode_members l kvs) @ newline_indent l' @ 125 # rest)
         = Some (kvs, rest)"
proof (induction l v and l xs and l kvs arbitrary: n rest and n rest l' and n rest l'
    rule: encode_encode_items_encode_members.induct)
  case (1 l)
  then obtain m where "n = Suc m" by (cases n) auto
  then show ?case by (simp add: scan_once_null)
next
  case (2 l b)
  then obtain m where "n = Suc m" by (cases n) auto
  then show ?case by (simp add: scan_once_true scan_once_false)
next
  case (3 l i)
  then obtain m where "n = Suc m" by (cases n) auto
  with 3 show ?case by (simp add: scan_once_int)
next
  case (4 l x)
  then show ?case by simp
next
  case (5 l s)
  then obtain m where "n = Suc m" by (cases n) auto
  with 5 show ?case by (simp add: scan_once_encode_string)
next
  case (6 l)
  then obtain m where "n = Suc m" by (cases n) auto
  then show ?case by (simp add: ustr_def scan_once_empty_array)
next
  case (7 l x xs)
  from "7.prems" obtain m where n: "n = Suc m" and m: "size_list size (x # xs) < m"
    by (cases n) auto
  from "7.prems" have wf: "list_all wf_json (x # xs)" by simp
  let ?body = "encode_items (Suc l) (x # xs) @ newline_indent l @ 93 # rest"
  from wf obtain c cs where ccs: "encode_items (Suc l) (x # xs) = c # cs" and c: "value_start c"
    using encode_items_start by blast
  have loop: "array_loop m ?body = Some (x # xs, rest)"
    using wf m by (intro "7.IH") simp_all
  have "skip_ws (newline_indent (Suc l) @ ?body) = c # cs @ newline_indent l @ 93 # rest"
    using c by (simp add: skip_ws_newline_indent ccs skip_ws_Cons value_start_not_ws)
  moreover have "c \<noteq> 93" using c by (simp add: value_start_not_close)
  ultimately have "scan_once (Suc m) (91 # newline_indent (Suc l) @ ?body)
      = map_option (\<lambda>(values, r'). (JArray values, r'))
          (array_loop m (c # cs @ newline_indent l @ 93 # rest))"
    by (rule scan_once_array)
  with loop ccs n show ?case by simp
next
  case (8 l)
  then obtain m where "n = Suc m" by (cases n) auto
  then show ?case by (simp add: ustr_def scan_once_empty_object)
next
  case (9 l kv kvs)
  from "9.prems" obtain m where n: "n = Suc m"
    and m: "size_list (size_prod (\<lambda>x. 0) size) (kv # kvs) < m"
    by (cases n) auto
  from "9.prems" have wf: "list_all (\<lambda>kv. wf_str (fst kv) \<and> wf_json (snd kv)) (kv # kvs)"
    and dist: "distinct (map fst (kv # kvs))" by simp_all
  obtain cs where cs: "encode_members (Suc l) (kv # kvs) = 34 # cs"
    "tl (encode_members (Suc l) (kv # kvs)) = cs"
    using encode_members_start by blast
  have loop: "object_loop m (tl (encode_members (Suc l) (kv # kvs)) @ newline_indent l @ 125 # rest)
      = Some (kv # kvs, rest)"
    using wf m by (intro "9.IH") simp_all
  have "skip_ws (newline_indent (Suc l) @ encode_members (Suc l) (kv # kvs)
          @ newline_indent l @ 125 # rest) = 34 # cs @ newline_indent l @ 125 # rest"
    by (simp add: skip_ws_newline_indent cs skip_ws_Cons is_ws_def)
  then have "scan_once (Suc m) (123 # newline_indent (Suc l) @ encode_members (Suc l) (kv # kvs)
          @ newline_indent l @ 125 # rest)
      = map_option (\<lambda>(pairs, r'). (JObject (py_dict pairs), r'))
          (object_loop m (cs @ newline_indent l @ 125 # rest))"
    by (rule scan_once_object)
  with loop cs n dist show ?case by (simp add: py_dict_distinct)
next
  case (10 l)
  then show ?case by simp
next
  case (11 l x)
  from "11.prems" obtain m where n: "n = Suc m" and m: "size x < m"
    by (cases n) auto
  from "11.prems" have wf: "wf_json x" by simp
  have "scan_once m (encode l x @ newline_indent l' @ 93 # rest)
      = Some (x, newline_indent l' @ 93 # rest)"
    using wf m by (intro "11.IH" delim_newline_indent)
  moreover have "skip_ws (newline_indent l' @ 93 # rest) = 93 # rest"
    by (simp add: skip_ws_newline_indent skip_ws_Cons is_ws_def)
  ultimately have "array_loop (Suc m) (encode l x @ newline_indent l' @ 93 # rest)
      = Some ([x], rest)"
    by (rule array_loop_last)
  with n show ?case by simp
next
  case (12 l x y ys)
  from "12.prems" obtain m where n: "n = Suc m" and m: "size x < m" "size_list size (y # ys) < m"
    by (cases n) auto
  from "12.prems" have wf: "wf_json x" "list_all wf_json (y # ys)" by simp_all
  let ?tail = "encode_items l (y # ys) @ newline_indent l' @ 93 # rest"
  from wf obtain c cs where ccs: "encode_items l (y # ys) = c # cs" and c: "value_start c"
    using encode_items_start by blast
  have "scan_once m (encode l x @ 44 # newline_indent l @ ?tail)
      = Some (x, 44 # newline_indent l @ ?tail)"
    using wf m by (intro "12.IH"(1) delim_comma)
  moreover have "skip_ws (44 # newline_indent l @ ?tail) = 44 # newline_indent l @ ?tail"
    by (simp add: skip_ws_Cons is_ws_def)
  ultimately have "array_loop (Suc m) (encode l x @ 44 # newline_indent l @ ?tail)
      = map_option (\<lambda>(values, r'). (x # values, r'))
          (array_loop m (skip_ws (newline_indent l @ ?tail)))"
    by (rule array_loop_more)
  moreover have "skip_ws (newline_indent l @ ?tail) = ?tail"
    using c by (simp add: skip_ws_newline_indent ccs skip_ws_Cons value_start_not_ws)
  moreover have "array_loop m ?tail = Some (y # ys, rest)"
    using wf m by (intro "12.IH"(2)) simp_all
  ultimately show ?case using n by simp
next
  case (13 l)
  then show ?case by simp
next
  case (14 l k v)
  from "14.prems" obtain m where n: "n = Suc m" and m: "size v < m"
    by (cases n) auto
  from "14.prems" have wf: "wf_str k" "wf_json v" by simp_all
  let ?after = "newline_indent l' @ 125 # rest"
  have "scanstring (concat (map escape_char k) @ 34 # 58 # 32 # encode l v @ ?after)
      = Some (k, 58 # 32 # encode l v @ ?after)"
    using wf(1) by (simp add: scanstring_escaped)
  moreover have "skip_ws (58 # 32 # encode l v @ ?after) = 58 # 32 # encode l v @ ?after"
    by (simp add: skip_ws_Cons is_ws_def)
  moreover have "scan_once m (skip_ws (32 # encode l v @ ?after)) = Some (v, ?after)"
    using wf(2) m by (simp add: skip_ws_space skip_ws_encode "14.IH" delim_newline_indent)
  moreover have "skip_ws ?after = 125 # rest"
    by (simp add: skip_ws_newline_indent skip_ws_Cons is_ws_def)
  ultimately have "object_loop (Suc m)
        (concat (map escape_char k) @ 34 # 58 # 32 # encode l v @ ?after)
      = Some ([(k, v)], rest)"
    by (rule object_loop_last)
  with n show ?case by (simp add: encode_string_start)
next
  case (15 l k v kv kvs)
  from "15.prems" obtain m where n: "n = Suc m" and m: "size v < m"
    "size_list (size_prod (\<lambda>x. 0) size) (kv # kvs) < m"
    by (cases n) auto
  from "15.prems" have wf: "wf_str k" "wf_json v"
    "list_all (\<lambda>kv. wf_str (fst kv) \<and> wf_json (snd kv)) (kv # kvs)" by simp_all
  obtain cs where cs: "encode_members l (kv # kvs) = 34 # cs"
    "tl (encode_members l (kv # kvs)) = cs"
    using encode_members_start by blast
  let ?tail = "encode_members l (kv # kvs) @ newline_indent l' @ 125 # rest"
  let ?after = "44 # newline_indent l @ ?tail"
  have "scanstring (concat (map escape_char k) @ 34 # 58 # 32 # encode l v @ ?after)
      = Some (k, 58 # 32 # encode l v @ ?after)"
    using wf(1) by (simp add: scanstring_escaped)
  moreover have "skip_ws (58 # 32 # encode l v @ ?after) = 58 # 32 # encode l v @ ?after"
    by (simp add: skip_ws_Cons is_ws_def)
  moreover have "scan_once m (skip_ws (32 # encode l v @ ?after)) = Some (v, ?after)"
    using wf(2) m by (simp add: skip_ws_space skip_ws_encode "15.IH"(1) delim_comma)
  moreover have "skip_ws ?after = 44 # newline_indent l @ ?tail"
    by (simp add: skip_ws_Cons is_ws_def)
  moreover have "skip_ws (newline_indent l @ ?tail) = 34 # cs @ newline_indent l' @ 125 # rest"
    by (simp add: skip_ws_newline_indent cs skip_ws_Cons is_ws_def)
  ultimately have "object_loop (Suc m)
        (concat (map escape_char k) @ 34 # 58 # 32 # encode l v @ ?after)
      = map_option (\<lambda>(pairs, r'). ((k, v) # pairs, r'))
          (object_loop m (cs @ newline_indent l' @ 125 # rest))"
    by (rule object_loop_more)
  moreover have "object_loop m (tl (encode_members l (kv # kvs)) @ newline_indent l' @ 125 # rest)
      = Some (kv # kvs, rest)"
    using wf m by (intro "15.IH"(2)) simp_all
  ultimately show ?case using n cs by (simp add: encode_string_start)
qed

subsection \<open>Decoding what was encoded\<close>

lemma length_encode_bounds:
  shows "size v \<le> length (encode l v)"
    and "size_list size xs \<le> length (encode_items l xs) + 1"
    and "size_list (size_prod (\<lambda>x. 0) size) kvs \<le> length (encode_members l kvs) + 1"
  by (induction l v and l xs and l kvs rule: encode_encode_items_encode_members.induct)
    (simp_all add: newline_indent_def encode_string_start ustr_def)

lemma json_loads_json_dumps:
  assumes "wf_json v"
  shows "json_loads (json_dumps v) = Some v"
proof -
  from assms obtain c cs where ccs: "encode 0 v = c # cs" and c: "value_start c"
    using encode_start by blast
  have fuel: "size v < Suc (Suc (2 * length (encode 0 v)))"
    using length_encode_bounds(1) [of v 0] by simp
  have "delim []" by (simp add: delim_def)
  with assms fuel
  have "scan_once (Suc (Suc (2 * length (encode 0 v)))) (encode 0 v @ []) = Some (v, [])"
    by (rule loads_encode_aux(1))
  moreover have "skip_ws (encode 0 v) = encode 0 v"
    using c by (simp add: ccs skip_ws_Cons value_start_not_ws)
  moreover have "\<not> startswith (encode 0 v) [65279]"
    using c by (auto simp: ccs startswith_def value_start_def is_digit_def)
  ultimately show ?thesis
    by (simp add: json_loads_def json_dumps_def skip_ws_def)
qed

subsection \<open>The bound on nested calls\<close>

text \<open>
  Every scanner returns a text shorter than the one it was given, so a call with a bound
  above twice the length of its text (plus one, or two for the loops) never runs out:
  a larger bound gives the same result.
\<close>

lemma length_skip_ws: "length (skip_ws s) \<le> length s"
  by (simp add: skip_ws_def length_dropWhile_le)

lemma skip_ws_Cons_length: "skip_ws r = c # r1 \<Longrightarrow> length r1 < length r"
  using length_skip_ws [of r] by simp

lemma append_char_rest:
  "append_char ch x = Some (k, r) \<Longrightarrow> \<exists>k'. x = Some (k', r)"
  by (cases x) (auto simp: append_char_def)

lemma scanstring_rest: "scanstring s = Some (k, r) \<Longrightarrow> length r < length s"
proof (induction s arbitrary: k r rule: scanstring.induct)
  case 1
  then show ?case by simp
next
  case (2 c cs)
  show ?case
  proof (cases "c = 34")
    case True
    with "2.prems" show ?thesis by simp
  next
    case False
    note not_quote = False
    show ?thesis
    proof (cases "c = 92")
      case False
      with not_quote "2.prems" obtain k' where "\<not> c < 32" "scanstring cs = Some (k', r)"
        by (auto split: if_splits dest: append_char_rest)
      with not_quote False "2.IH"(5) [of k' r] show ?thesis by simp
    next
      case True
      from True not_quote "2.prems" obtain esc cs' where cs: "cs = esc # cs'"
        by (cases cs) auto
      show ?thesis
      proof (cases "esc = 117")
        case False
        with True not_quote cs "2.prems" obtain ch k' where
          "backslash esc = Some ch" "scanstring cs' = Some (k', r)"
          by (auto split: option.splits dest: append_char_rest)
        with "2.IH"(4) [OF not_quote True cs False, of ch k' r] cs show ?thesis by simp
      next
        case u: True
        from True not_quote cs u "2.prems" obtain uni where uni: "decode_uXXXX cs' = Some uni"
          by (auto split: option.splits)
        show ?thesis
        proof (cases "55296 \<le> uni \<and> uni \<le> 56319 \<and> take 2 (drop 4 cs') = [92, 117]")
          case False
          with True not_quote cs u uni "2.prems" obtain k' where
            "scanstring (drop 4 cs') = Some (k', r)"
            by (auto split: if_splits dest: append_char_rest)
          with "2.IH"(3) [OF not_quote True cs u uni False, of k' r] cs show ?thesis by simp
        next
          case pair: True
          with True not_quote cs u uni "2.prems" obtain uni2 where
            uni2: "decode_uXXXX (drop 6 cs') = Some uni2"
            by (auto split: option.splits)
          show ?thesis
          proof (cases "56320 \<le> uni2 \<and> uni2 \<le> 57343")
            case low: True
            with pair True not_quote cs u uni uni2 "2.prems" obtain k' where
              "scanstring (drop 10 cs') = Some (k', r)"
              by (auto dest: append_char_rest)
            with "2.IH"(1) [OF not_quote True cs u uni pair uni2 low, of k' r] cs
            show ?thesis by simp
          next
            case False
            with pair True not_quote cs u uni uni2 "2.prems" obtain k' where
              "scanstring (drop 4 cs') = Some (k', r)"
              by (auto dest: append_char_rest)
            with "2.IH"(2) [OF not_quote True cs u uni pair uni2 False, of k' r] cs
            show ?thesis by simp
          qed
        qed
      qed
    qed
  qed
qed

lemma match_integer_rest:
  assumes "match_integer s = Some (i, r)"
  shows "length r < length s"
proof -
  define sign where "sign = (if s \<noteq> [] \<and> hd s = 45 then [45::nat] else [])"
  from assms obtain d r0 where s1: "drop (length sign) s = d # r0"
    and r: "r = r0 \<or> r = dropWhile is_digit r0"
    by (auto simp: match_integer_def Let_def sign_def split: list.splits if_splits)
  have "length (drop (length sign) s) \<le> length s" by simp
  with s1 have "length r0 < length s" by simp
  moreover have "length (dropWhile is_digit r0) \<le> length r0" by (rule length_dropWhile_le)
  ultimately show ?thesis using r by auto
qed

lemma match_frac_rest: "match_frac s = (f, r) \<Longrightarrow> length r \<le> length s"
  by (auto simp: match_frac_def split: list.splits if_splits
      intro: le_trans [OF length_dropWhile_le])

lemma match_exp_rest: "match_exp s = (e, r) \<Longrightarrow> length r \<le> length s"
  by (auto simp: match_exp_def Let_def split: list.splits if_splits
      intro: le_trans [OF length_dropWhile_le])

lemma match_number_rest:
  assumes "match_number s = Some (v, r)"
  shows "length r < length s"
proof -
  from assms obtain i r0 where i: "match_integer s = Some (i, r0)"
    by (auto simp: match_number_def split: option.splits)
  obtain f r1 where f: "match_frac r0 = (f, r1)" by (cases "match_frac r0")
  obtain e r2 where e: "match_exp r1 = (e, r2)" by (cases "match_exp r1")
  from assms i f e have "r = r2"
    by (auto simp: match_number_def split: if_splits)
  with match_integer_rest [OF i] match_frac_rest [OF f] match_exp_rest [OF e]
  show ?thesis by simp
qed

lemma scan_rest_aux:
  "(\<forall>s v r. scan_once n s = Some (v, r) \<longrightarrow> length r < length s) \<and>
   (\<forall>s vs r. array_loop n s = Some (vs, r) \<longrightarrow> length r < length s) \<and>
   (\<forall>s kvs r. object_loop n s = Some (kvs, r) \<longrightarrow> length r < length s)"
proof (induction n)
  case 0
  show ?case by (simp add: scan_once.simps array_loop.simps object_loop.simps)
next
  case (Suc n)
  then have scan: "\<And>s v r. scan_once n s = Some (v, r) \<Longrightarrow> length r < length s"
    and arr: "\<And>s vs r. array_loop n s = Some (vs, r) \<Longrightarrow> length r < length s"
    and obj: "\<And>s kvs r. object_loop n s = Some (kvs, r) \<Longrightarrow> length r < length s"
    by blast+
  have 1: "length r < length s" if "scan_once (Suc n) s = Some (v, r)" for s v r
  proof -
    from that obtain c r0 where s: "s = c # r0"
      by (cases s) (auto simp: scan_once.simps)
    consider (str) "c = 34" | (obj) "c = 123" | (arr) "c = 91"
      | (other) "c \<noteq> 34" "c \<noteq> 123" "c \<noteq> 91" by blast
    then show ?thesis
    proof cases
      case str
      with that s obtain k where "scanstring r0 = Some (k, r)"
        by (auto simp: scan_once.simps)
      from scanstring_rest [OF this] s show ?thesis by simp
    next
      case obj
      with that s obtain d r1 where sk: "skip_ws r0 = d # r1"
        by (cases "skip_ws r0") (auto simp: scan_once.simps)
      from skip_ws_Cons_length [OF sk] have r1: "length r1 < length r0" .
      from that s obj sk have "r = r1 \<or> (\<exists>p. object_loop n r1 = Some (p, r))"
        by (auto simp: scan_once.simps split: if_splits)
      with r1 s \<open>\<And>s kvs r. object_loop n s = Some (kvs, r) \<Longrightarrow> length r < length s\<close>
      show ?thesis by fastforce
    next
      case arr
      with that s obtain d r1 where sk: "skip_ws r0 = d # r1"
        by (cases "skip_ws r0") (auto simp: scan_once.simps)
      from length_skip_ws [of r0] sk have r1: "Suc (length r1) \<le> length r0" by simp
      from that s arr sk have "r = r1 \<or> (\<exists>p. array_loop n (d # r1) = Some (p, r))"
        by (auto simp: scan_once.simps split: if_splits)
      with r1 s \<open>\<And>s vs r. array_loop n s = Some (vs, r) \<Longrightarrow> length r < length s\<close> [of "d # r1" _ r]
      show ?thesis by fastforce
    next
      case other
      with that s have "r = drop 4 s \<or> r = drop 5 s \<or> match_number s = Some (v, r)
          \<or> r = drop 3 s \<or> r = drop 8 s \<or> r = drop 9 s"
        by (auto simp: scan_once.simps split: if_splits option.splits)
      with s match_number_rest [of s v r] show ?thesis by auto
    qed
  qed
  have 2: "length r < length s" if "array_loop (Suc n) s = Some (vs, r)" for s vs r
  proof -
    from that obtain v r0 where v: "scan_once n s = Some (v, r0)"
      by (auto simp: array_loop.simps split: option.splits)
    from that v obtain c r1 where sk: "skip_ws r0 = c # r1"
      by (cases "skip_ws r0") (auto simp: array_loop.simps)
    from that v sk have "r = r1 \<or> (\<exists>p. array_loop n (skip_ws r1) = Some (p, r))"
      by (auto simp: array_loop.simps split: if_splits)
    moreover have "length r1 < length s"
      using scan [OF v] skip_ws_Cons_length [OF sk] by simp
    moreover have "length (skip_ws r1) \<le> length r1" by (rule length_skip_ws)
    ultimately show ?thesis using arr by fastforce
  qed
  have 3: "length r < length s" if "object_loop (Suc n) s = Some (kvs, r)" for s kvs r
  proof -
    from that obtain k r0 where k: "scanstring s = Some (k, r0)"
      by (auto simp: object_loop.simps split: option.splits)
    from that k obtain c r1 where sk: "skip_ws r0 = c # r1"
      by (cases "skip_ws r0") (auto simp: object_loop.simps)
    from that k sk obtain v r2 where v: "scan_once n (skip_ws r1) = Some (v, r2)"
      by (auto simp: object_loop.simps split: if_splits option.splits)
    from that k sk v obtain d r3 where sk2: "skip_ws r2 = d # r3"
      by (cases "skip_ws r2") (auto simp: object_loop.simps split: if_splits)
    have r3: "length r3 < length s"
      using scanstring_rest [OF k] skip_ws_Cons_length [OF sk] length_skip_ws [of r1]
        scan [OF v] skip_ws_Cons_length [OF sk2] by simp
    from that k sk v sk2 have "r = r3 \<or>
        (\<exists>q r4 p. skip_ws r3 = q # r4 \<and> object_loop n r4 = Some (p, r))"
      by (auto simp: object_loop.simps split: if_splits list.splits)
    then show ?thesis
    proof
      assume "r = r3"
      with r3 show ?thesis by simp
    next
      assume "\<exists>q r4 p. skip_ws r3 = q # r4 \<and> object_loop n r4 = Some (p, r)"
      then obtain q r4 p where sk3: "skip_ws r3 = q # r4" and "object_loop n r4 = Some (p, r)"
        by blast
      with obj have "length r < length r4" by blast
      with skip_ws_Cons_length [OF sk3] r3 show ?thesis by simp
    qed
  qed
  from 1 2 3 show ?case by blast
qed

lemma scan_once_rest: "scan_once n s = Some (v, r) \<Longrightarrow> length r < length s"
  using scan_rest_aux by blast

lemma fuel_stable_aux:
  "(\<forall>s. 2 * length s + 1 \<le> n \<longrightarrow> scan_once (Suc n) s = scan_once n s) \<and>
   (\<forall>s. 2 * length s + 2 \<le> n \<longrightarrow> array_loop (Suc n) s = array_loop n s) \<and>
   (\<forall>s. 2 * length s + 2 \<le> n \<longrightarrow> object_loop (Suc n) s = object_loop n s)"
proof (induction n)
  case 0
  show ?case by simp
next
  case (Suc n)
  then have scan: "\<And>s. 2 * length s + 1 \<le> n \<Longrightarrow> scan_once (Suc n) s = scan_once n s"
    and arr: "\<And>s. 2 * length s + 2 \<le> n \<Longrightarrow> array_loop (Suc n) s = array_loop n s"
    and obj: "\<And>s. 2 * length s + 2 \<le> n \<Longrightarrow> object_loop (Suc n) s = object_loop n s"
    by blast+
  have 1: "scan_once (Suc (Suc n)) s = scan_once (Suc n) s" if le: "2 * length s + 1 \<le> Suc n" for s
  proof (cases s)
    case Nil
    then show ?thesis by (simp add: scan_once.simps)
  next
    case (Cons c r0)
    have a: "array_loop (Suc n) (d # r1) = array_loop n (d # r1)" if "skip_ws r0 = d # r1" for d r1
    proof -
      from length_skip_ws [of r0] that have "length (d # r1) \<le> length r0" by simp
      with le Cons show ?thesis by (intro arr) simp
    qed
    have o: "object_loop (Suc n) r1 = object_loop n r1" if "skip_ws r0 = d # r1" for d r1
    proof -
      from length_skip_ws [of r0] that have "length (d # r1) \<le> length r0" by simp
      with le Cons show ?thesis by (intro obj) simp
    qed
    show ?thesis
      by (simp add: scan_once.simps(2) [of _ "c # r0"] Cons a o split: list.splits)
  qed
  have 2: "array_loop (Suc (Suc n)) s = array_loop (Suc n) s" if le: "2 * length s + 2 \<le> Suc n" for s
  proof -
    from le have s: "scan_once (Suc n) s = scan_once n s" by (intro scan) simp
    show ?thesis
    proof (cases "scan_once n s")
      case None
      with s show ?thesis by (simp add: array_loop.simps)
    next
      case (Some p)
      obtain v r where p: "p = (v, r)" by (cases p)
      from Some p have r: "length r < length s" by (intro scan_once_rest) simp
      have a: "array_loop (Suc n) (skip_ws r1) = array_loop n (skip_ws r1)"
        if "skip_ws r = d # r1" for d r1
      proof -
        from skip_ws_Cons_length [OF that] length_skip_ws [of r1] r
        have "Suc (Suc (length (skip_ws r1))) \<le> length s" by simp
        with le show ?thesis by (intro arr) simp
      qed
      from s Some p show ?thesis
        by (simp add: array_loop.simps(2) [of _ s] a split: list.splits)
    qed
  qed
  have 3: "object_loop (Suc (Suc n)) s = object_loop (Suc n) s" if le: "2 * length s + 2 \<le> Suc n" for s
  proof (cases "scanstring s")
    case None
    then show ?thesis by (simp add: object_loop.simps)
  next
    case (Some p)
    obtain k r where p: "p = (k, r)" by (cases p)
    from Some p have r: "length r < length s" by (intro scanstring_rest) simp
    show ?thesis
    proof (cases "skip_ws r")
      case Nil
      with Some p show ?thesis by (simp add: object_loop.simps)
    next
      case (Cons colon r1)
      from skip_ws_Cons_length [OF Cons] length_skip_ws [of r1] r
      have r1: "Suc (Suc (length (skip_ws r1))) \<le> length s" by simp
      with le have s: "scan_once (Suc n) (skip_ws r1) = scan_once n (skip_ws r1)"
        by (intro scan) simp
      show ?thesis
      proof (cases "scan_once n (skip_ws r1)")
        case None
        with s Some p Cons show ?thesis by (simp add: object_loop.simps)
      next
        case v: (Some q)
        obtain v r2 where q: "q = (v, r2)" by (cases q)
        from v q have r2: "length r2 < length (skip_ws r1)" by (intro scan_once_rest) simp
        have o: "object_loop (Suc n) r4 = object_loop n r4"
          if "skip_ws r2 = d # r3" "skip_ws r3 = e # r4" for d r3 e r4
        proof -
          from skip_ws_Cons_length [OF that(1)] skip_ws_Cons_length [OF that(2)] r2 r1
          have "Suc (Suc (length r4)) \<le> length s" by simp
          with le show ?thesis by (intro obj) simp
        qed
        from s Some p Cons v q show ?thesis
          by (simp add: object_loop.simps(2) [of _ s] o split: list.splits)
      qed
    qed
  qed
  from 1 2 3 show ?case by blast
qed

lemma scan_once_fuel:
  "2 * length s + 1 \<le> n \<Longrightarrow> scan_once (n + k) s = scan_once n s"
proof (induction k)
  case 0
  then show ?case by simp
next
  case (Suc k)
  then have "2 * length s + 1 \<le> n + k" by simp
  with fuel_stable_aux [of "n + k"] have "scan_once (Suc (n + k)) s = scan_once (n + k) s"
    by blast
  with Suc show ?case by simp
qed

text \<open>More fuel than \<open>json_loads\<close> gives the scanner changes no result.\<close>

lemma json_loads_fuel:
  "scan_once (2 * length s + 2 + k) (skip_ws s) = scan_once (2 * length s + 2) (skip_ws s)"
proof -
  have "2 * length (skip_ws s) + 1 \<le> 2 * length s + 2"
    using length_skip_ws [of s] by simp
  then show ?thesis by (rule scan_once_fuel)
qed

section \<open>The ranking pass\<close>

subsection \<open>The score dictionary\<close>

lemma id_to_score_absent:
  "id_to_score L (enumerate n ids) d = Inr d' \<Longrightarrow> k \<notin> set ids \<Longrightarrow> d' k = d k"
  by (induction ids arbitrary: n d) (auto split: if_splits)

lemma id_to_score_last:
  "id_to_score L (enumerate n ids) d = Inr d' \<Longrightarrow> i < length ids \<Longrightarrow>
   ids ! i \<notin> set (drop (Suc i) ids) \<Longrightarrow> d' (ids ! i) = Some (int L - int (n + i))"
proof (induction ids arbitrary: n d i)
  case Nil
  then show ?case by simp
next
  case (Cons x xs)
  from Cons.prems(1) have h: "hashable x"
    and rest: "id_to_score L (enumerate (Suc n) xs) (d(x \<mapsto> int L - int n)) = Inr d'"
    by (auto split: if_splits)
  show ?case
  proof (cases i)
    case 0
    with Cons.prems(3) have "x \<notin> set xs" by simp
    with rest have "d' x = (d(x \<mapsto> int L - int n)) x" by (rule id_to_score_absent)
    with 0 show ?thesis by simp
  next
    case (Suc j)
    with Cons.prems have "j < length xs" "xs ! j \<notin> set (drop (Suc j) xs)" by simp_all
    with rest have "d' (xs ! j) = Some (int L - int (Suc n + j))" by (rule Cons.IH)
    with Suc show ?thesis by simp
  qed
qed

lemma id_to_score_hashable:
  "list_all hashable ids \<Longrightarrow> \<exists>d'. id_to_score L (enumerate n ids) d = Inr d'"
  by (induction ids arbitrary: n d) auto

lemma id_to_score_unhashable:
  "\<not> list_all hashable ids \<Longrightarrow> id_to_score L (enumerate n ids) d = Inl TypeError"
  by (induction ids arbitrary: n d) auto

subsection \<open>The sort\<close>

lemma mset_py_sort_reverse: "mset (py_sort_reverse key xs) = mset xs"
  by (simp add: py_sort_reverse_def)

lemma set_py_sort_reverse: "set (py_sort_reverse key xs) = set xs"
  by (simp add: py_sort_reverse_def)

lemma py_sort_reverse_descending:
  "sorted_wrt (\<lambda>a b. key b \<le> key a) (py_sort_reverse key xs)"
proof -
  have "sorted (map key (sort_key key (rev xs)))" by (rule sorted_sort_key)
  then have "sorted_wrt (\<lambda>a b. key a \<le> key b) (sort_key key (rev xs))"
    by (simp add: sorted_map)
  then show ?thesis by (simp add: py_sort_reverse_def sorted_wrt_rev)
qed

lemma py_sort_reverse_stable:
  "filter (\<lambda>y. key y = k) (py_sort_reverse key xs) = filter (\<lambda>y. key y = k) xs"
proof -
  have "filter (\<lambda>y. key y = k) (py_sort_reverse key xs)
        = rev (filter (\<lambda>y. key y = k) (sort_key key (rev xs)))"
    by (simp add: py_sort_reverse_def rev_filter)
  also have "\<dots> = rev (filter (\<lambda>y. key y = k) (rev xs))"
    by (simp only: sort_key_stable)
  also have "\<dots> = filter (\<lambda>y. key y = k) xs"
    by (simp add: rev_filter)
  finally show ?thesis .
qed

subsection \<open>The pass as a whole\<close>

lemma same_but_score_assign: "same_but_score (assign_score d t) t"
  by (simp add: same_but_score_def assign_score_def split: option.splits)

lemma list_all2_assign_score: "list_all2 same_but_score (map (assign_score d) tasks) tasks"
  by (induction tasks) (simp_all add: same_but_score_assign)

lemma same_but_score_refl: "list_all2 same_but_score tasks tasks"
  by (induction tasks) (simp_all add: same_but_score_def)

lemma id_assign_score: "id' (assign_score d t) = id' t"
  by (simp add: assign_score_def split: option.splits)

lemma priority_score_assign_score:
  "priority_score (assign_score d t) = (case d (JString (id' t)) of Some s \<Rightarrow> s | None \<Rightarrow> 0)"
  by (simp add: assign_score_def split: option.splits)

lemma rank_tasks_no_incomplete:
  "filter (\<lambda>t. \<not> completed t) tasks = [] \<Longrightarrow> rank_tasks run tasks = ([], Inr tasks)"
  by (simp add: rank_tasks_def)

text \<open>What a pass that parsed a ranked list returns.\<close>

lemma rank_tasks_parsed:
  assumes inc: "\<not> list_all completed tasks"
    and m: "re_search (rank_response run tasks) = Some m"
    and v: "json_loads m = Some (JArray ids)"
  shows "snd (rank_tasks run tasks) =
           (case id_to_score (length ids) (enumerate 0 ids) Map.empty of
              Inl e \<Rightarrow> Inl e
            | Inr d \<Rightarrow> Inr (py_sort_reverse priority_score (map (assign_score d) tasks)))"
proof -
  from inc have ne: "filter (\<lambda>t. \<not> completed t) tasks \<noteq> []"
    by (simp add: filter_empty_conv list_all_iff)
  with m v show ?thesis
    by (simp add: rank_tasks_def rank_response_def Let_def)
qed

lemma rank_tasks_parsed_Inr:
  assumes inc: "\<not> list_all completed tasks"
    and m: "re_search (rank_response run tasks) = Some m"
    and v: "json_loads m = Some (JArray ids)"
    and res: "snd (rank_tasks run tasks) = Inr tasks'"
  shows "\<exists>d. id_to_score (length ids) (enumerate 0 ids) Map.empty = Inr d \<and>
             tasks' = py_sort_reverse priority_score (map (assign_score d) tasks)"
  using rank_tasks_parsed [OF inc m v] res by (auto split: sum.splits)

lemma rank_tasks_unchanged_or_sorted:
  assumes "snd (rank_tasks run tasks) = Inr tasks'"
  shows "tasks' = tasks \<or>
         (\<exists>d. tasks' = py_sort_reverse priority_score (map (assign_score d) tasks))"
  using assms
  by (auto simp: rank_tasks_def Let_def split: if_splits option.splits sum.splits)

subsection \<open>Evaluation on concrete texts\<close>

lemmas scan_once_numeral = scan_once.simps(2) [of "pred_numeral k" for k, folded numeral_eq_Suc]
lemmas array_loop_numeral = array_loop.simps(2) [of "pred_numeral k" for k, folded numeral_eq_Suc]
lemmas object_loop_numeral = object_loop.simps(2) [of "pred_numeral k" for k, folded numeral_eq_Suc]

lemma ustr_keywords:
  "ustr ''null'' = [110, 117, 108, 108]"
  "ustr ''true'' = [116, 114, 117, 101]"
  "ustr ''false'' = [102, 97, 108, 115, 101]"
  "ustr ''NaN'' = [78, 97, 78]"
  "ustr ''Infinity'' = [73, 110, 102, 105, 110, 105, 116, 121]"
  "ustr ''-Infinity'' = [45, 73, 110, 102, 105, 110, 105, 116, 121]"
  by (simp_all add: ustr_def)

lemmas json_eval = json_loads_def ustr_keywords startswith_def skip_ws_def is_ws_def
  append_char_def is_digit_def scan_once_numeral array_loop_numeral object_loop_numeral
  scan_once.simps array_loop.simps object_loop.simps

lemma rank_response_answer: "rank_response (answer r) tasks = py_strip r"
  by (simp add: rank_response_def ollama_generate_def answer_def)

lemma text_BA: \<open>ustr ''["B","A"]'' = [91, 34, 66, 34, 44, 34, 65, 34, 93]\<close>
  by (simp add: ustr_def)

lemma strip_BA: "py_strip [91, 34, 66, 34, 44, 34, 65, 34, 93] = [91, 34, 66, 34, 44, 34, 65, 34, 93]"
  by (simp add: py_strip_def py_isspace_def)

lemma search_BA:
  "re_search [91, 34, 66, 34, 44, 34, 65, 34, 93] = Some [91, 34, 66, 34, 44, 34, 65, 34, 93]"
  by (simp add: match_here_def)

lemma loads_BA:
  "json_loads [91, 34, 66, 34, 44, 34, 65, 34, 93] = Some (JArray [JString [66], JString [65]])"
  by (simp add: json_eval)

lemma text_AA: \<open>ustr ''["A","A"]'' = [91, 34, 65, 34, 44, 34, 65, 34, 93]\<close>
  by (simp add: ustr_def)

lemma strip_AA: "py_strip [91, 34, 65, 34, 44, 34, 65, 34, 93] = [91, 34, 65, 34, 44, 34, 65, 34, 93]"
  by (simp add: py_strip_def py_isspace_def)

lemma search_AA:
  "re_search [91, 34, 65, 34, 44, 34, 65, 34, 93] = Some [91, 34, 65, 34, 44, 34, 65, 34, 93]"
  by (simp add: match_here_def)

lemma loads_AA:
  "json_loads [91, 34, 65, 34, 44, 34, 65, 34, 93] = Some (JArray [JString [65], JString [65]])"
  by (simp add: json_eval)

lemma not_all_completed_A: "\<not> list_all completed [task_A]"
  by (simp add: task_A_def)

lemma not_all_completed_AB: "\<not> list_all completed [task_A, task_B]"
  by (simp add: task_A_def)

lemma rank_AA:
  \<open>snd (rank_tasks (answer (ustr ''["A","A"]'')) [task_A]) = Inr [task_A\<lparr>priority_score := 1\<rparr>]\<close>
proof -
  have m: \<open>re_search (rank_response (answer (ustr ''["A","A"]'')) [task_A])
           = Some [91, 34, 65, 34, 44, 34, 65, 34, 93]\<close>
    by (simp only: rank_response_answer text_AA strip_AA search_AA)
  show ?thesis
    using rank_tasks_parsed [OF not_all_completed_A m loads_AA]
    by (simp add: task_A_def assign_score_def py_sort_reverse_def ustr_def)
qed

lemma rank_BA:
  \<open>snd (rank_tasks (answer (ustr ''["B","A"]'')) [task_A, task_B])
   = Inr [task_B\<lparr>priority_score := 2\<rparr>, task_A\<lparr>priority_score := 1\<rparr>]\<close>
proof -
  have m: \<open>re_search (rank_response (answer (ustr ''["B","A"]'')) [task_A, task_B])
           = Some [91, 34, 66, 34, 44, 34, 65, 34, 93]\<close>
    by (simp only: rank_response_answer text_BA strip_BA search_BA)
  show ?thesis
    using rank_tasks_parsed [OF not_all_completed_AB m loads_BA]
    by (simp add: task_A_def task_B_def assign_score_def py_sort_reverse_def ustr_def)
qed

subsection \<open>Scores\<close>

lemma rank_tasks_parsed_any:
  assumes inc: "\<not> list_all completed tasks"
    and m: "re_search (rank_response run tasks) = Some m"
    and v: "json_loads m = Some ranked_ids"
    and res: "snd (rank_tasks run tasks) = Inr tasks'"
  shows "\<exists>d. tasks' = py_sort_reverse priority_score (map (assign_score d) tasks)"
proof -
  from inc have ne: "filter (\<lambda>t. \<not> completed t) tasks \<noteq> []"
    by (simp add: filter_empty_conv list_all_iff)
  with m v res show ?thesis
    by (auto simp: rank_tasks_def rank_response_def Let_def split: sum.splits)
qed

text \<open>The score of a task after a pass that parsed the list \<open>ids\<close>.\<close>

lemma rank_tasks_scores:
  assumes inc: "\<not> list_all completed tasks"
    and m: "re_search (rank_response run tasks) = Some m"
    and v: "json_loads m = Some (JArray ids)"
    and res: "snd (rank_tasks run tasks) = Inr tasks'"
    and t': "t' \<in> set tasks'"
  shows "i < length ids \<Longrightarrow> ids ! i = JString (id' t') \<Longrightarrow>
         ids ! i \<notin> set (drop (Suc i) ids) \<Longrightarrow> priority_score t' = int (length ids) - int i"
    and "JString (id' t') \<notin> set ids \<Longrightarrow> priority_score t' = 0"
proof -
  from rank_tasks_parsed_Inr [OF inc m v res] obtain d
    where d: "id_to_score (length ids) (enumerate 0 ids) Map.empty = Inr d"
      and tasks': "tasks' = py_sort_reverse priority_score (map (assign_score d) tasks)"
    by blast
  from t' tasks' obtain t where t: "t' = assign_score d t"
    by (auto simp: set_py_sort_reverse)
  {
    assume i: "i < length ids" "ids ! i = JString (id' t')" "ids ! i \<notin> set (drop (Suc i) ids)"
    from d i(1) i(3) have "d (ids ! i) = Some (int (length ids) - int (0 + i))"
      by (rule id_to_score_last)
    with i(2) t show "priority_score t' = int (length ids) - int i"
      by (simp add: priority_score_assign_score id_assign_score)
  }
  {
    assume "JString (id' t') \<notin> set ids"
    with d have "d (JString (id' t')) = Map.empty (JString (id' t'))"
      by (rule id_to_score_absent)
    with t show "priority_score t' = 0"
      by (simp add: priority_score_assign_score id_assign_score)
  }
qed

lemma rank_tasks_hashable_returns:
  assumes inc: "\<not> list_all completed tasks"
    and m: "re_search (rank_response run tasks) = Some m"
    and v: "json_loads m = Some (JArray ids)"
    and h: "list_all hashable ids"
  shows "\<exists>tasks'. snd (rank_tasks run tasks) = Inr tasks'"
proof -
  from h obtain d where "id_to_score (length ids) (enumerate 0 ids) Map.empty = Inr d"
    using id_to_score_hashable by blast
  with rank_tasks_parsed [OF inc m v] show ?thesis by simp
qed

text \<open>The stored list after the loop of lines 184-188, task by task.\<close>

lemma assign_score_at:
  assumes d: "id_to_score (length ids) (enumerate 0 ids) Map.empty = Inr d"
  shows "i < length ids \<Longrightarrow> ids ! i = JString (id' t) \<Longrightarrow>
         ids ! i \<notin> set (drop (Suc i) ids) \<Longrightarrow>
         priority_score (assign_score d t) = int (length ids) - int i"
    and "JString (id' t) \<notin> set ids \<Longrightarrow> priority_score (assign_score d t) = 0"
proof -
  {
    assume i: "i < length ids" "ids ! i = JString (id' t)" "ids ! i \<notin> set (drop (Suc i) ids)"
    from d i(1) i(3) have "d (ids ! i) = Some (int (length ids) - int (0 + i))"
      by (rule id_to_score_last)
    with i(2) show "priority_score (assign_score d t) = int (length ids) - int i"
      by (simp add: priority_score_assign_score)
  }
  {
    assume "JString (id' t) \<notin> set ids"
    with d have "d (JString (id' t)) = Map.empty (JString (id' t))"
      by (rule id_to_score_absent)
    then show "priority_score (assign_score d t) = 0"
      by (simp add: priority_score_assign_score)
  }
qed

lemma rank_tasks_scores_in_place:
  assumes inc: "\<not> list_all completed tasks"
    and m: "re_search (rank_response run tasks) = Some m"
    and v: "json_loads m = Some (JArray ids)"
    and res: "snd (rank_tasks run tasks) = Inr tasks'"
  shows "\<exists>scored. length scored = length tasks \<and> list_all2 same_but_score scored tasks \<and>
           tasks' = py_sort_reverse priority_score scored \<and> mset tasks' = mset scored \<and>
           (\<forall>k < length tasks.
              (\<forall>i < length ids. ids ! i = JString (id' (tasks ! k)) \<longrightarrow>
                   ids ! i \<notin> set (drop (Suc i) ids) \<longrightarrow>
                   priority_score (scored ! k) = int (length ids) - int i) \<and>
              (JString (id' (tasks ! k)) \<notin> set ids \<longrightarrow> priority_score (scored ! k) = 0))"
proof -
  from rank_tasks_parsed_Inr [OF inc m v res] obtain d
    where d: "id_to_score (length ids) (enumerate 0 ids) Map.empty = Inr d"
      and tasks': "tasks' = py_sort_reverse priority_score (map (assign_score d) tasks)"
    by blast
  let ?scored = "map (assign_score d) tasks"
  have "length ?scored = length tasks" by simp
  moreover have "list_all2 same_but_score ?scored tasks" by (rule list_all2_assign_score)
  moreover have "mset tasks' = mset ?scored"
    unfolding tasks' by (rule mset_py_sort_reverse)
  moreover have "\<forall>k < length tasks.
      (\<forall>i < length ids. ids ! i = JString (id' (tasks ! k)) \<longrightarrow>
           ids ! i \<notin> set (drop (Suc i) ids) \<longrightarrow>
           priority_score (?scored ! k) = int (length ids) - int i) \<and>
      (JString (id' (tasks ! k)) \<notin> set ids \<longrightarrow> priority_score (?scored ! k) = 0)"
    using assign_score_at [OF d] by simp
  ultimately show ?thesis using tasks' by blast
qed

lemma rank_ADB:
  \<open>snd (rank_tasks (answer (ustr ''["B","A"]'')) [task_A, task_done, task_B])
     = Inr [task_B\<lparr>priority_score := 2\<rparr>, task_A\<lparr>priority_score := 1\<rparr>,
            task_done\<lparr>priority_score := 0\<rparr>]\<close>
proof -
  have inc: "\<not> list_all completed [task_A, task_done, task_B]"
    by (simp add: task_A_def)
  have m: \<open>re_search (rank_response (answer (ustr ''["B","A"]'')) [task_A, task_done, task_B])
           = Some [91, 34, 66, 34, 44, 34, 65, 34, 93]\<close>
    by (simp only: rank_response_answer text_BA strip_BA search_BA)
  show ?thesis
    using rank_tasks_parsed [OF inc m loads_BA]
    by (simp add: task_A_def task_B_def task_done_def assign_score_def py_sort_reverse_def
        ustr_def)
qed

text \<open>
  C1, as amended. A pass that parsed the ranked list \<open>ids\<close> of length \<open>L\<close> rewrites the
  score of every stored task, completed or not: \<open>scored\<close> is the stored list with the new
  scores in place, task \<open>k\<close> of it being task \<open>k\<close> of the stored list but for the score.
  A task whose id stands at 0-based position \<open>i\<close> of the ranked list and at no later
  position has priority score \<open>L - i\<close>, and a task whose id is not in the list has
  priority score 0. What the pass returns is \<open>scored\<close>, sorted, so the same holds of
  every task of the list returned. The pass completes whenever every element of the
  ranked list is a string, number, boolean or null.
\<close>

theorem rank_scores_by_last_position:
  assumes "\<not> list_all completed tasks"
    and "re_search (rank_response run tasks) = Some m"
    and "json_loads m = Some (JArray ids)"
  shows "(list_all hashable ids \<longrightarrow> (\<exists>tasks'. snd (rank_tasks run tasks) = Inr tasks')) \<and>
         (\<forall>tasks'. snd (rank_tasks run tasks) = Inr tasks' \<longrightarrow>
            (\<exists>scored. length scored = length tasks \<and> list_all2 same_but_score scored tasks \<and>
               tasks' = py_sort_reverse priority_score scored \<and> mset tasks' = mset scored \<and>
               (\<forall>k < length tasks.
                  (\<forall>i < length ids. ids ! i = JString (id' (tasks ! k)) \<longrightarrow>
                       ids ! i \<notin> set (drop (Suc i) ids) \<longrightarrow>
                       priority_score (scored ! k) = int (length ids) - int i) \<and>
                  (JString (id' (tasks ! k)) \<notin> set ids \<longrightarrow> priority_score (scored ! k) = 0)))) \<and>
         (\<forall>tasks' t'. snd (rank_tasks run tasks) = Inr tasks' \<longrightarrow> t' \<in> set tasks' \<longrightarrow>
            (\<forall>i < length ids. ids ! i = JString (id' t') \<longrightarrow> ids ! i \<notin> set (drop (Suc i) ids)
               \<longrightarrow> priority_score t' = int (length ids) - int i) \<and>
            (JString (id' t') \<notin> set ids \<longrightarrow> priority_score t' = 0))"
proof (intro conjI allI impI)
  assume "list_all hashable ids"
  with assms show "\<exists>tasks'. snd (rank_tasks run tasks) = Inr tasks'"
    by (rule rank_tasks_hashable_returns)
next
  fix tasks' assume "snd (rank_tasks run tasks) = Inr tasks'"
  with assms show "\<exists>scored. length scored = length tasks \<and>
      list_all2 same_but_score scored tasks \<and>
      tasks' = py_sort_reverse priority_score scored \<and> mset tasks' = mset scored \<and>
      (\<forall>k < length tasks.
         (\<forall>i < length ids. ids ! i = JString (id' (tasks ! k)) \<longrightarrow>
              ids ! i \<notin> set (drop (Suc i) ids) \<longrightarrow>
              priority_score (scored ! k) = int (length ids) - int i) \<and>
         (JString (id' (tasks ! k)) \<notin> set ids \<longrightarrow> priority_score (scored ! k) = 0))"
    by (rule rank_tasks_scores_in_place)
next
  fix tasks' t' i
  assume "snd (rank_tasks run tasks) = Inr tasks'" "t' \<in> set tasks'"
    "i < length ids" "ids ! i = JString (id' t')" "ids ! i \<notin> set (drop (Suc i) ids)"
  then show "priority_score t' = int (length ids) - int i"
    by (intro rank_tasks_scores(1) [OF assms])
next
  fix tasks' t'
  assume "snd (rank_tasks run tasks) = Inr tasks'" "t' \<in> set tasks'"
    "JString (id' t') \<notin> set ids"
  then show "priority_score t' = 0"
    by (intro rank_tasks_scores(2) [OF assms])
qed

theorem rank_scores_by_last_position_witness:
  \<open>\<not> list_all completed [task_A, task_done, task_B] \<and>
   re_search (rank_response (answer (ustr ''["B","A"]'')) [task_A, task_done, task_B])
     = Some (ustr ''["B","A"]'') \<and>
   json_loads (ustr ''["B","A"]'') = Some (JArray [JString (ustr ''B''), JString (ustr ''A'')]) \<and>
   list_all hashable [JString (ustr ''B''), JString (ustr ''A'')] \<and>
   snd (rank_tasks (answer (ustr ''["B","A"]'')) [task_A, task_done, task_B])
     = Inr [task_B\<lparr>priority_score := 2\<rparr>, task_A\<lparr>priority_score := 1\<rparr>,
            task_done\<lparr>priority_score := 0\<rparr>] \<and>
   (\<exists>scored. length scored = length [task_A, task_done, task_B] \<and>
      list_all2 same_but_score scored [task_A, task_done, task_B] \<and>
      [task_B\<lparr>priority_score := 2\<rparr>, task_A\<lparr>priority_score := 1\<rparr>,
       task_done\<lparr>priority_score := 0\<rparr>] = py_sort_reverse priority_score scored \<and>
      priority_score (scored ! 0) = 2 - 1 \<and>
      priority_score (scored ! 1) = 0 \<and>
      priority_score (scored ! 2) = 2 - 0)\<close>
proof -
  let ?ids = "[JString (ustr ''B''), JString (ustr ''A'')]"
  let ?tasks = "[task_A, task_done, task_B]"
  let ?out = "[task_B\<lparr>priority_score := 2\<rparr>, task_A\<lparr>priority_score := 1\<rparr>,
               task_done\<lparr>priority_score := 0\<rparr>]"
  have inc: "\<not> list_all completed ?tasks"
    by (simp add: task_A_def)
  have m: \<open>re_search (rank_response (answer (ustr ''["B","A"]'')) ?tasks)
           = Some (ustr ''["B","A"]'')\<close>
    by (simp only: rank_response_answer text_BA strip_BA search_BA)
  have v: \<open>json_loads (ustr ''["B","A"]'') = Some (JArray ?ids)\<close>
    by (simp add: text_BA loads_BA) (simp add: ustr_def)
  have h: "list_all hashable ?ids" by simp
  from rank_scores_by_last_position [OF inc m v] rank_ADB
  obtain scored where len: "length scored = length ?tasks"
    and same: "list_all2 same_but_score scored ?tasks"
    and sorted: "?out = py_sort_reverse priority_score scored"
    and sc: "\<forall>k < length ?tasks.
        (\<forall>i < length ?ids. ?ids ! i = JString (id' (?tasks ! k)) \<longrightarrow>
             ?ids ! i \<notin> set (drop (Suc i) ?ids) \<longrightarrow>
             priority_score (scored ! k) = int (length ?ids) - int i) \<and>
        (JString (id' (?tasks ! k)) \<notin> set ?ids \<longrightarrow> priority_score (scored ! k) = 0)"
    by blast
  from sc have k0: "\<forall>i < length ?ids. ?ids ! i = JString (id' (?tasks ! 0)) \<longrightarrow>
             ?ids ! i \<notin> set (drop (Suc i) ?ids) \<longrightarrow>
             priority_score (scored ! 0) = int (length ?ids) - int i"
    and k1: "JString (id' (?tasks ! 1)) \<notin> set ?ids \<longrightarrow> priority_score (scored ! 1) = 0"
    and k2: "\<forall>i < length ?ids. ?ids ! i = JString (id' (?tasks ! 2)) \<longrightarrow>
             ?ids ! i \<notin> set (drop (Suc i) ?ids) \<longrightarrow>
             priority_score (scored ! 2) = int (length ?ids) - int i"
    by simp_all
  from k0 [THEN spec, of "Suc 0"] have s0: "priority_score (scored ! 0) = 2 - 1"
    by (simp add: task_A_def ustr_def)
  from k1 have s1: "priority_score (scored ! 1) = 0"
    by (simp add: task_done_def ustr_def)
  from k2 [THEN spec, of 0] have s2: "priority_score (scored ! 2) = 2 - 0"
    by (simp add: task_B_def ustr_def)
  from len same sorted s0 s1 s2
  have "\<exists>scored. length scored = length ?tasks \<and> list_all2 same_but_score scored ?tasks \<and>
      ?out = py_sort_reverse priority_score scored \<and>
      priority_score (scored ! 0) = 2 - 1 \<and> priority_score (scored ! 1) = 0 \<and>
      priority_score (scored ! 2) = 2 - 0"
    by blast
  with inc m v h rank_ADB show ?thesis by (intro conjI)
qed

text \<open>
  C1 as first stated (every position \<open>i\<close> of an id gives the score \<open>L - i\<close>) fails on a
  list that repeats an id: for the response
  \<^verbatim>\<open>["A","A"]\<close> the id A stands at position 0 of a list of length 2, and the task gets
  score 1, not 2 - 0.
\<close>

theorem rank_scores_by_position_counterexample:
  \<open>json_loads (ustr ''["A","A"]'') = Some (JArray [JString (ustr ''A''), JString (ustr ''A'')]) \<and>
   snd (rank_tasks (answer (ustr ''["A","A"]'')) [task_A]) = Inr [task_A\<lparr>priority_score := 1\<rparr>] \<and>
   [JString (ustr ''A''), JString (ustr ''A'')] ! 0 = JString (id' (task_A\<lparr>priority_score := 1\<rparr>)) \<and>
   priority_score (task_A\<lparr>priority_score := 1\<rparr>)
     \<noteq> int (length [JString (ustr ''A''), JString (ustr ''A'')]) - int 0\<close>
proof -
  have \<open>json_loads (ustr ''["A","A"]'') = Some (JArray [JString (ustr ''A''), JString (ustr ''A'')])\<close>
    by (simp add: text_AA loads_AA) (simp add: ustr_def)
  with rank_AA show ?thesis by (simp add: task_A_def)
qed

text \<open>
  C10. When the parsed list holds the id of a task at two positions \<open>i < j\<close> and at no
  position after \<open>j\<close>, the task gets the score of the last occurrence, \<open>L - j\<close>, and so
  not the score \<open>L - i\<close> of the earlier one.
\<close>

theorem rank_duplicate_id_last_wins:
  assumes "\<not> list_all completed tasks"
    and "re_search (rank_response run tasks) = Some m"
    and "json_loads m = Some (JArray ids)"
    and "snd (rank_tasks run tasks) = Inr tasks'"
    and "t' \<in> set tasks'"
    and "i < j" "j < length ids"
    and "ids ! i = JString (id' t')" "ids ! j = JString (id' t')"
    and "JString (id' t') \<notin> set (drop (Suc j) ids)"
  shows "priority_score t' = int (length ids) - int j \<and>
         priority_score t' \<noteq> int (length ids) - int i"
proof -
  from assms(9,10) have "ids ! j \<notin> set (drop (Suc j) ids)" by simp
  with assms(7,9) have "priority_score t' = int (length ids) - int j"
    by (intro rank_tasks_scores(1) [OF assms(1-5)])
  with assms(6) show ?thesis by simp
qed

theorem rank_duplicate_id_last_wins_witness:
  \<open>snd (rank_tasks (answer (ustr ''["A","A"]'')) [task_A]) = Inr [task_A\<lparr>priority_score := 1\<rparr>] \<and>
   json_loads (ustr ''["A","A"]'') = Some (JArray [JString (ustr ''A''), JString (ustr ''A'')]) \<and>
   priority_score (task_A\<lparr>priority_score := 1\<rparr>) = 2 - 1 \<and>
   priority_score (task_A\<lparr>priority_score := 1\<rparr>) \<noteq> 2 - 0\<close>
proof -
  have m: \<open>re_search (rank_response (answer (ustr ''["A","A"]'')) [task_A])
           = Some (ustr ''["A","A"]'')\<close>
    by (simp only: rank_response_answer text_AA strip_AA search_AA)
  have v: \<open>json_loads (ustr ''["A","A"]'') = Some (JArray [JString (ustr ''A''), JString (ustr ''A'')])\<close>
    by (simp add: text_AA loads_AA) (simp add: ustr_def)
  have "priority_score (task_A\<lparr>priority_score := 1\<rparr>)
          = int (length [JString (ustr ''A''), JString (ustr ''A'')]) - int 1 \<and>
        priority_score (task_A\<lparr>priority_score := 1\<rparr>)
          \<noteq> int (length [JString (ustr ''A''), JString (ustr ''A'')]) - int 0"
    by (rule rank_duplicate_id_last_wins [OF not_all_completed_A m v rank_AA])
      (simp_all add: task_A_def)
  with rank_AA v show ?thesis by simp
qed

subsection \<open>Order\<close>

text \<open>
  C2. After a pass that parsed a ranked list, the whole stored list, completed and
  unranked tasks included, is in descending order of priority score, and the tasks of any
  one score stand in the order they had in the stored list before the pass (\<open>scored\<close> is
  that list with the new scores written in place). With A and B stored in this order,
  both at score 0, the response \<^verbatim>\<open>["B","A"]\<close> gives B the score 2, A the score 1 and the
  stored order B, A.
\<close>

theorem rank_tasks_sorted_stable:
  assumes "\<not> list_all completed tasks"
    and "re_search (rank_response run tasks) = Some m"
    and "json_loads m = Some ranked_ids"
    and "snd (rank_tasks run tasks) = Inr tasks'"
  shows \<open>sorted_wrt (\<lambda>a b. priority_score b \<le> priority_score a) tasks' \<and>
         (\<exists>scored. list_all2 same_but_score scored tasks \<and>
            (\<forall>s. filter (\<lambda>t. priority_score t = s) tasks'
                 = filter (\<lambda>t. priority_score t = s) scored)) \<and>
         snd (rank_tasks (answer (ustr ''["B","A"]'')) [task_A, task_B])
           = Inr [task_B\<lparr>priority_score := 2\<rparr>, task_A\<lparr>priority_score := 1\<rparr>]\<close>
proof -
  from rank_tasks_parsed_any [OF assms] obtain d
    where tasks': "tasks' = py_sort_reverse priority_score (map (assign_score d) tasks)"
    by blast
  have "sorted_wrt (\<lambda>a b. priority_score b \<le> priority_score a) tasks'"
    unfolding tasks' by (rule py_sort_reverse_descending)
  moreover have "\<forall>s. filter (\<lambda>t. priority_score t = s) tasks'
                   = filter (\<lambda>t. priority_score t = s) (map (assign_score d) tasks)"
    unfolding tasks' by (simp only: py_sort_reverse_stable) simp
  with list_all2_assign_score
  have "\<exists>scored. list_all2 same_but_score scored tasks \<and>
          (\<forall>s. filter (\<lambda>t. priority_score t = s) tasks'
               = filter (\<lambda>t. priority_score t = s) scored)"
    by blast
  ultimately show ?thesis using rank_BA by simp
qed

theorem rank_tasks_sorted_stable_witness:
  \<open>\<not> list_all completed [task_A, task_done, task_B] \<and>
   re_search (rank_response (answer (ustr ''["B","A"]'')) [task_A, task_done, task_B])
     = Some (ustr ''["B","A"]'') \<and>
   json_loads (ustr ''["B","A"]'') = Some (JArray [JString (ustr ''B''), JString (ustr ''A'')]) \<and>
   snd (rank_tasks (answer (ustr ''["B","A"]'')) [task_A, task_done, task_B])
     = Inr [task_B\<lparr>priority_score := 2\<rparr>, task_A\<lparr>priority_score := 1\<rparr>,
            task_done\<lparr>priority_score := 0\<rparr>] \<and>
   sorted_wrt (\<lambda>a b. priority_score b \<le> priority_score a)
     [task_B\<lparr>priority_score := 2\<rparr>, task_A\<lparr>priority_score := 1\<rparr>,
      task_done\<lparr>priority_score := 0\<rparr>]\<close>
proof -
  have inc: "\<not> list_all completed [task_A, task_done, task_B]"
    by (simp add: task_A_def)
  have m: \<open>re_search (rank_response (answer (ustr ''["B","A"]'')) [task_A, task_done, task_B])
           = Some (ustr ''["B","A"]'')\<close>
    by (simp only: rank_response_answer text_BA strip_BA search_BA)
  have v: \<open>json_loads (ustr ''["B","A"]'') = Some (JArray [JString (ustr ''B''), JString (ustr ''A'')])\<close>
    by (simp add: text_BA loads_BA) (simp add: ustr_def)
  have res: \<open>snd (rank_tasks (answer (ustr ''["B","A"]'')) [task_A, task_done, task_B])
     = Inr [task_B\<lparr>priority_score := 2\<rparr>, task_A\<lparr>priority_score := 1\<rparr>,
            task_done\<lparr>priority_score := 0\<rparr>]\<close>
    using rank_tasks_parsed [OF inc m [unfolded text_BA] loads_BA]
    by (simp add: task_A_def task_B_def task_done_def assign_score_def py_sort_reverse_def
        ustr_def)
  from rank_tasks_sorted_stable [OF inc m v res] inc m v res
  show ?thesis by simp
qed

subsection \<open>Passes that change nothing, and what no pass changes\<close>

text \<open>
  C5. When no task is incomplete the ranking pass sends no prompt to the model and returns
  the task list as it was: same tasks, same fields, same order.
\<close>

theorem rank_tasks_all_completed_noop:
  assumes "list_all completed tasks"
  shows "rank_tasks run tasks = ([], Inr tasks)"
proof -
  from assms have "filter (\<lambda>t. \<not> completed t) tasks = []"
    by (simp add: filter_empty_conv list_all_iff)
  then show ?thesis by (rule rank_tasks_no_incomplete)
qed

theorem rank_tasks_all_completed_noop_witness:
  "list_all completed [task_done, task_done\<lparr>id' := ustr ''E''\<rparr>] \<and>
   rank_tasks (answer (ustr ''[]'')) [task_done, task_done\<lparr>id' := ustr ''E''\<rparr>]
     = ([], Inr [task_done, task_done\<lparr>id' := ustr ''E''\<rparr>])"
  using rank_tasks_all_completed_noop
    [of "[task_done, task_done\<lparr>id' := ustr ''E''\<rparr>]" "answer (ustr ''[]'')"]
  by (simp add: task_done_def)

text \<open>
  C3. When the response holds no bracketed substring, or json.loads fails on the first one,
  the ranking pass returns the task list unchanged: same length, order and fields.
\<close>

theorem rank_tasks_parse_failure_unchanged:
  assumes "re_search (rank_response run tasks) = None \<or>
           (\<exists>m. re_search (rank_response run tasks) = Some m \<and> json_loads m = None)"
  shows "snd (rank_tasks run tasks) = Inr tasks"
  using assms
  by (auto simp: rank_tasks_def rank_response_def Let_def)

lemma text_oops: \<open>ustr ''Sorry [oops], B''
    = [83, 111, 114, 114, 121, 32, 91, 111, 111, 112, 115, 93, 44, 32, 66]\<close>
  by (simp add: ustr_def)

lemma strip_oops:
  "py_strip [83, 111, 114, 114, 121, 32, 91, 111, 111, 112, 115, 93, 44, 32, 66]
   = [83, 111, 114, 114, 121, 32, 91, 111, 111, 112, 115, 93, 44, 32, 66]"
  by (simp add: py_strip_def py_isspace_def)

lemma search_oops:
  "re_search [83, 111, 114, 114, 121, 32, 91, 111, 111, 112, 115, 93, 44, 32, 66]
   = Some [91, 111, 111, 112, 115, 93]"
  by (simp add: match_here_def)

lemma loads_oops: "json_loads [91, 111, 111, 112, 115, 93] = None"
  by (simp add: json_eval match_number_def match_integer_def)

theorem rank_tasks_parse_failure_unchanged_witness:
  \<open>re_search (rank_response (answer (ustr ''Sorry [oops], B'')) [task_A, task_B])
     = Some [91, 111, 111, 112, 115, 93] \<and>
   json_loads [91, 111, 111, 112, 115, 93] = None \<and>
   snd (rank_tasks (answer (ustr ''Sorry [oops], B'')) [task_A, task_B]) = Inr [task_A, task_B]\<close>
proof -
  have m: \<open>re_search (rank_response (answer (ustr ''Sorry [oops], B'')) [task_A, task_B])
     = Some [91, 111, 111, 112, 115, 93]\<close>
    by (simp only: rank_response_answer text_oops strip_oops search_oops)
  with loads_oops
  have \<open>re_search (rank_response (answer (ustr ''Sorry [oops], B'')) [task_A, task_B]) = None \<or>
        (\<exists>m. re_search (rank_response (answer (ustr ''Sorry [oops], B'')) [task_A, task_B]) = Some m
           \<and> json_loads m = None)\<close>
    by blast
  from rank_tasks_parse_failure_unchanged [OF this] m loads_oops show ?thesis by simp
qed

text \<open>
  C9. The list a ranking pass returns is a permutation of the stored list in which at most
  the priority scores have been rewritten: no task is added or removed, and id, text,
  completed, timestamp and source of every task are as before.
\<close>

theorem rank_tasks_frame:
  assumes "snd (rank_tasks run tasks) = Inr tasks'"
  shows "\<exists>scored. list_all2 same_but_score scored tasks \<and> mset tasks' = mset scored"
proof -
  from assms consider "tasks' = tasks"
    | d where "tasks' = py_sort_reverse priority_score (map (assign_score d) tasks)"
    using rank_tasks_unchanged_or_sorted by blast
  then show ?thesis
  proof cases
    case 1
    then show ?thesis using same_but_score_refl by blast
  next
    case 2
    then have "mset tasks' = mset (map (assign_score d) tasks)"
      by (simp only: mset_py_sort_reverse)
    with list_all2_assign_score show ?thesis by blast
  qed
qed

theorem rank_tasks_frame_witness:
  \<open>snd (rank_tasks (answer (ustr ''["B","A"]'')) [task_A, task_B])
     = Inr [task_B\<lparr>priority_score := 2\<rparr>, task_A\<lparr>priority_score := 1\<rparr>] \<and>
   (\<exists>scored. list_all2 same_but_score scored [task_A, task_B] \<and>
      mset [task_B\<lparr>priority_score := 2\<rparr>, task_A\<lparr>priority_score := 1\<rparr>] = mset scored)\<close>
  using rank_tasks_frame [OF rank_BA] rank_BA by simp

section \<open>Storage\<close>

lemma load_tasks_cases:
  "load_tasks fs =
     (case fs of
        Absent \<Rightarrow> Inr (JArray [])
      | Unreadable \<Rightarrow> Inr (JArray [])
      | Content c \<Rightarrow> (case json_loads c of None \<Rightarrow> Inr (JArray []) | Some obj \<Rightarrow> Inr obj))"
  by (simp add: load_tasks_def os_path_exists_def json_load_def read_text_def
      split: file_state.splits option.splits)

lemma json_loads_empty: "json_loads [] = None"
  by (simp add: json_eval)

lemma text_not_json: \<open>ustr ''{"id": "A",'' = [123, 34, 105, 100, 34, 58, 32, 34, 65, 34, 44]\<close>
  by (simp add: ustr_def)

lemma loads_not_json: "json_loads [123, 34, 105, 100, 34, 58, 32, 34, 65, 34, 44] = None"
  by (simp add: json_eval)

text \<open>
  C4. Loading never raises: it returns a value for every state of the store file, and the
  empty list when the file is absent, cannot be read, is empty, or holds a text that
  json.loads refuses.
\<close>

theorem load_tasks_never_raises:
  "(\<exists>obj. load_tasks fs = Inr obj) \<and>
   (fs = Absent \<or> fs = Unreadable \<or> fs = Content [] \<or>
    (\<exists>c. fs = Content c \<and> json_loads c = None) \<longrightarrow> load_tasks fs = Inr (JArray []))"
  by (auto simp: load_tasks_cases json_loads_empty split: file_state.splits option.splits)

theorem load_tasks_never_raises_witness:
  \<open>load_tasks Absent = Inr (JArray []) \<and>
   load_tasks Unreadable = Inr (JArray []) \<and>
   load_tasks (Content []) = Inr (JArray []) \<and>
   json_loads (ustr ''{"id": "A",'') = None \<and>
   load_tasks (Content (ustr ''{"id": "A",'')) = Inr (JArray [])\<close>
  using load_tasks_never_raises [of Absent] load_tasks_never_raises [of Unreadable]
    load_tasks_never_raises [of "Content []"]
    load_tasks_never_raises [of \<open>Content (ustr ''{"id": "A",'')\<close>]
  by (simp add: text_not_json loads_not_json)

text \<open>
  Why a well-formed string excludes a high surrogate directly followed by a low one: the
  two are written as two escapes and read back as a single code point. A surrogate that
  stands alone, or a low one before a high one, comes back as it was.
\<close>

lemma dumps_surrogates:
  "json_dumps (JString [55357, 56832])
   = [34, 92, 117, 100, 56, 51, 100, 92, 117, 100, 101, 48, 48, 34]"
  by (simp add: json_dumps_def encode_string_def escape_char_def u_escape_def hex4_def
      hex_digit_def)

lemma loads_surrogates:
  "json_loads [34, 92, 117, 100, 56, 51, 100, 92, 117, 100, 101, 48, 48, 34]
   = Some (JString [128512])"
  by (simp add: json_eval decode_uXXXX_def hex_value_def)

lemma surrogate_pair_not_round_trip:
  "json_loads (json_dumps (JString [55357, 56832])) = Some (JString [128512])"
  by (simp only: dumps_surrogates loads_surrogates)

lemma lone_surrogate_round_trip:
  "json_loads (json_dumps (JString [56832, 55357])) = Some (JString [56832, 55357])"
  by (rule json_loads_json_dumps) (simp add: is_high_surrogate_def is_low_surrogate_def)

lemma wf_str_ustr_keys:
  "wf_str (ustr ''id'')" "wf_str (ustr ''text'')" "wf_str (ustr ''completed'')"
  "wf_str (ustr ''timestamp'')" "wf_str (ustr ''priority_score'')" "wf_str (ustr ''source'')"
  by (simp_all add: ustr_def is_high_surrogate_def)

lemma distinct_task_keys:
  "distinct [ustr ''id'', ustr ''text'', ustr ''completed'', ustr ''timestamp'',
             ustr ''priority_score'', ustr ''source'']"
  by (simp add: ustr_def)

lemma wf_json_task_dict: "wf_task t \<Longrightarrow> wf_json (task_dict t)"
  using distinct_task_keys by (simp add: task_dict_def wf_task_def wf_str_ustr_keys)

lemma wf_json_tasks_value: "list_all wf_task ts \<Longrightarrow> wf_json (tasks_value ts)"
  by (induction ts) (simp_all add: tasks_value_def wf_json_task_dict)

lemma save_then_load:
  "wf_json obj \<Longrightarrow> save_tasks True obj = Inr (Content (json_dumps obj)) \<and>
                  load_tasks (Content (json_dumps obj)) = Inr obj"
  by (simp add: save_tasks_def load_tasks_cases json_loads_json_dumps)

text \<open>
  C7. Saving a well-formed value and loading the file that results gives the value back:
  the same records with the same fields in the same order. This holds for every
  well-formed JSON value, and so for the value of every list of well-formed tasks.
\<close>

theorem save_load_round_trip:
  "(wf_json obj \<longrightarrow>
      (\<exists>fs. save_tasks True obj = Inr fs \<and> load_tasks fs = Inr obj)) \<and>
   (list_all wf_task ts \<longrightarrow>
      (\<exists>fs. save_tasks True (tasks_value ts) = Inr fs \<and> load_tasks fs = Inr (tasks_value ts)))"
  using save_then_load wf_json_tasks_value by blast

lemma wf_task_examples: "wf_task task_A" "wf_task task_B" "wf_task task_done"
  by (simp_all add: wf_task_def task_A_def task_B_def task_done_def ustr_def
      is_high_surrogate_def)

theorem save_load_round_trip_witness:
  "list_all wf_task [task_A, task_done, task_B] \<and>
   (\<exists>fs. save_tasks True (tasks_value [task_A, task_done, task_B]) = Inr fs \<and>
         load_tasks fs = Inr (tasks_value [task_A, task_done, task_B]))"
proof -
  have wf: "list_all wf_task [task_A, task_done, task_B]"
    by (simp add: wf_task_examples)
  with save_load_round_trip [of JNull "[task_A, task_done, task_B]"] show ?thesis
    by blast
qed

section \<open>Extraction\<close>

lemma text_sure: \<open>ustr ''Sure! ["buy milk", "call mom"]''
    = [83, 117, 114, 101, 33, 32, 91, 34, 98, 117, 121, 32, 109, 105, 108, 107, 34, 44, 32, 34,
       99, 97, 108, 108, 32, 109, 111, 109, 34, 93]\<close>
  by (simp add: ustr_def)

lemma strip_sure:
  "py_strip [83, 117, 114, 101, 33, 32, 91, 34, 98, 117, 121, 32, 109, 105, 108, 107, 34, 44, 32,
             34, 99, 97, 108, 108, 32, 109, 111, 109, 34, 93]
   = [83, 117, 114, 101, 33, 32, 91, 34, 98, 117, 121, 32, 109, 105, 108, 107, 34, 44, 32, 34,
      99, 97, 108, 108, 32, 109, 111, 109, 34, 93]"
  by (simp add: py_strip_def py_isspace_def)

lemma search_sure:
  "re_search [83, 117, 114, 101, 33, 32, 91, 34, 98, 117, 121, 32, 109, 105, 108, 107, 34, 44, 32,
              34, 99, 97, 108, 108, 32, 109, 111, 109, 34, 93]
   = Some [91, 34, 98, 117, 121, 32, 109, 105, 108, 107, 34, 44, 32, 34, 99, 97, 108, 108, 32,
           109, 111, 109, 34, 93]"
  by (simp add: match_here_def)

lemma loads_sure:
  "json_loads [91, 34, 98, 117, 121, 32, 109, 105, 108, 107, 34, 44, 32, 34, 99, 97, 108, 108, 32,
               109, 111, 109, 34, 93]
   = Some (JArray [JString [98, 117, 121, 32, 109, 105, 108, 107],
                   JString [99, 97, 108, 108, 32, 109, 111, 109]])"
  by (simp add: json_eval)

lemma extract_sure:
  \<open>extract_tasks_from_text (answer (ustr ''Sure! ["buy milk", "call mom"]'')) text
   = JArray [JString (ustr ''buy milk''), JString (ustr ''call mom'')]\<close>
proof -
  have \<open>re_search (ollama_generate (answer (ustr ''Sure! ["buy milk", "call mom"]''))
           (extract_prompt text))
        = Some [91, 34, 98, 117, 121, 32, 109, 105, 108, 107, 34, 44, 32, 34, 99, 97, 108, 108, 32,
                109, 111, 109, 34, 93]\<close>
    by (simp only: ollama_generate_def answer_def text_sure strip_sure search_sure)
  then show ?thesis
    by (simp add: extract_tasks_from_text_def loads_sure) (simp add: ustr_def)
qed

lemma re_search_no_bracket: "91 \<notin> set s \<or> 93 \<notin> set s \<Longrightarrow> re_search s = None"
  using re_search_no_open re_search_no_close by blast

text \<open>
  C6. The extraction parser takes the text from the first opening bracket of the response
  up to the first closing bracket after it, and returns what json.loads makes of it; it
  returns the empty list when there is no such text or json.loads fails. A response
  without an opening or without a closing bracket gives the empty list, and the response
  \<^verbatim>\<open>Sure! ["buy milk", "call mom"]\<close> gives the list of the two strings.
\<close>

theorem extract_tasks_first_bracket_span:
  \<open>extract_tasks_from_text run text
     = (case first_bracket_span (ollama_generate run (extract_prompt text)) of
          None \<Rightarrow> JArray []
        | Some m \<Rightarrow> (case json_loads m of None \<Rightarrow> JArray [] | Some obj \<Rightarrow> obj)) \<and>
   (91 \<notin> set (ollama_generate run (extract_prompt text)) \<or>
    93 \<notin> set (ollama_generate run (extract_prompt text))
      \<longrightarrow> extract_tasks_from_text run text = JArray []) \<and>
   extract_tasks_from_text (answer (ustr ''Sure! ["buy milk", "call mom"]'')) text
     = JArray [JString (ustr ''buy milk''), JString (ustr ''call mom'')]\<close>
proof -
  have "extract_tasks_from_text run text
     = (case first_bracket_span (ollama_generate run (extract_prompt text)) of
          None \<Rightarrow> JArray []
        | Some m \<Rightarrow> (case json_loads m of None \<Rightarrow> JArray [] | Some obj \<Rightarrow> obj))"
    by (simp add: extract_tasks_from_text_def re_search_eq_first_bracket_span)
  moreover have "91 \<notin> set (ollama_generate run (extract_prompt text)) \<or>
      93 \<notin> set (ollama_generate run (extract_prompt text))
      \<longrightarrow> extract_tasks_from_text run text = JArray []"
    by (auto simp: extract_tasks_from_text_def re_search_no_open re_search_no_close)
  ultimately show ?thesis using extract_sure by simp
qed

lemma text_none: "ustr ''I found no tasks.''
    = [73, 32, 102, 111, 117, 110, 100, 32, 110, 111, 32, 116, 97, 115, 107, 115, 46]"
  by (simp add: ustr_def)

lemma strip_none:
  "py_strip [73, 32, 102, 111, 117, 110, 100, 32, 110, 111, 32, 116, 97, 115, 107, 115, 46]
   = [73, 32, 102, 111, 117, 110, 100, 32, 110, 111, 32, 116, 97, 115, 107, 115, 46]"
  by (simp add: py_strip_def py_isspace_def)

theorem extract_tasks_first_bracket_span_witness:
  \<open>91 \<notin> set (ollama_generate (answer (ustr ''I found no tasks.'')) (extract_prompt (ustr ''hello''))) \<and>
   extract_tasks_from_text (answer (ustr ''I found no tasks.'')) (ustr ''hello'') = JArray [] \<and>
   extract_tasks_from_text (answer (ustr ''Sure! ["buy milk", "call mom"]'')) (ustr ''hello'')
     = JArray [JString (ustr ''buy milk''), JString (ustr ''call mom'')]\<close>
proof -
  have no: "91 \<notin> set (ollama_generate (answer (ustr ''I found no tasks.''))
                        (extract_prompt (ustr ''hello'')))"
    by (simp add: ollama_generate_def answer_def text_none strip_none)
  with extract_tasks_first_bracket_span
    [of "answer (ustr ''I found no tasks.'')" "ustr ''hello''"]
  show ?thesis by blast
qed

section \<open>Removal\<close>

lemma py_pop_in_range:
  "0 \<le> k \<Longrightarrow> k < int (length xs) \<Longrightarrow>
   py_pop xs k = Inr (take (nat k) xs @ drop (Suc (nat k)) xs)"
  by (simp add: py_pop_def Let_def)

lemma complete_selected_tasks:
  assumes "0 \<le> k" "k < int (length (self_tasks w))"
  shows "self_tasks (fst (snd (complete_selected can_write k (w, fs))))
         = take (nat k) (self_tasks w) @ drop (Suc (nat k)) (self_tasks w)"
  using assms
  by (simp add: complete_selected_def py_pop_in_range save_tasks_def Let_def)

lemma complete_selected_saved:
  assumes "0 \<le> k" "k < int (length (self_tasks w))"
  shows "complete_selected True k (w, fs) =
           (None,
            w\<lparr>self_tasks := take (nat k) (self_tasks w) @ drop (Suc (nat k)) (self_tasks w),
              self_task_list := takeItem (self_task_list w) k\<rparr>,
            Content (json_dumps (tasks_value
              (take (nat k) (self_tasks w) @ drop (Suc (nat k)) (self_tasks w)))))"
  using assms
  by (simp add: complete_selected_def py_pop_in_range save_tasks_def Let_def)

text \<open>
  C8. For a row index \<open>k\<close> with \<open>0 \<le> k < n\<close>, where \<open>n\<close> is the length of the stored list,
  the removal leaves the stored list without its element at position \<open>k\<close>: the tasks before
  \<open>k\<close> keep their places, the tasks after \<open>k\<close> move up by one, and the length is \<open>n - 1\<close>.
  This holds whether or not the file can be written; when it can, no exception leaves the
  method and the file holds the new list.
\<close>

theorem complete_selected_removes_row:
  assumes "0 \<le> k" "k < int (length (self_tasks w))"
  shows "self_tasks (fst (snd (complete_selected can_write k (w, fs))))
           = take (nat k) (self_tasks w) @ drop (Suc (nat k)) (self_tasks w) \<and>
         length (self_tasks (fst (snd (complete_selected can_write k (w, fs)))))
           = length (self_tasks w) - 1 \<and>
         (\<forall>i < nat k. self_tasks (fst (snd (complete_selected can_write k (w, fs)))) ! i
                        = self_tasks w ! i) \<and>
         (\<forall>i. nat k \<le> i \<and> Suc i < length (self_tasks w) \<longrightarrow>
              self_tasks (fst (snd (complete_selected can_write k (w, fs)))) ! i
                = self_tasks w ! Suc i) \<and>
         fst (complete_selected True k (w, fs)) = None \<and>
         snd (snd (complete_selected True k (w, fs)))
           = Content (json_dumps (tasks_value
               (take (nat k) (self_tasks w) @ drop (Suc (nat k)) (self_tasks w))))"
proof -
  let ?xs = "self_tasks w"
  from assms have k: "nat k < length ?xs" by simp
  have len: "length (take (nat k) ?xs @ drop (Suc (nat k)) ?xs) = length ?xs - 1"
    using k by simp
  have before: "\<forall>i < nat k. (take (nat k) ?xs @ drop (Suc (nat k)) ?xs) ! i = ?xs ! i"
    using k by (simp add: nth_append)
  have after: "\<forall>i. nat k \<le> i \<and> Suc i < length ?xs \<longrightarrow>
      (take (nat k) ?xs @ drop (Suc (nat k)) ?xs) ! i = ?xs ! Suc i"
  proof (intro allI impI)
    fix i assume i: "nat k \<le> i \<and> Suc i < length ?xs"
    then have "(take (nat k) ?xs @ drop (Suc (nat k)) ?xs) ! i
               = drop (Suc (nat k)) ?xs ! (i - nat k)"
      using k by (simp add: nth_append min_def)
    also have "\<dots> = ?xs ! (Suc (nat k) + (i - nat k))"
      using i by (intro nth_drop) simp
    also have "\<dots> = ?xs ! Suc i" using i by simp
    finally show "(take (nat k) ?xs @ drop (Suc (nat k)) ?xs) ! i = ?xs ! Suc i" .
  qed
  show ?thesis
    using len before after
    by (simp only: complete_selected_tasks [OF assms] complete_selected_saved [OF assms]
        fst_conv snd_conv)
qed

theorem complete_selected_removes_row_witness:
  "(0::int) \<le> 1 \<and> (1::int) < int (length [task_A, task_done, task_B]) \<and>
   self_tasks (fst (snd (complete_selected True 1
     (\<lparr>self_tasks = [task_A, task_done, task_B],
       self_task_list = map display [task_A, task_done, task_B]\<rparr>, Absent))))
   = [task_A, task_B]"
  using complete_selected_removes_row
    [of 1 "\<lparr>self_tasks = [task_A, task_done, task_B],
             self_task_list = map display [task_A, task_done, task_B]\<rparr>" True Absent]
  by simp

end
